theory Spec2Isabelle
  imports Main "HOL-Library.Sublist"
begin

section \<open>The parkrun milestone detector (main.py)\<close>

subsection \<open>Data model\<close>

text \<open>
  \<^verbatim>\<open>class LocationEnum(Enum)\<close>: the two supported locations; \<open>location_value\<close> is the
  enum member's \<^verbatim>\<open>.value\<close>, the path segment of the location in a results URL.
\<close>

datatype LocationEnum = CYTADELA | LAS_DEBINSKI

fun location_value :: "LocationEnum \<Rightarrow> string" where
  "location_value CYTADELA = ''poznan''"
| "location_value LAS_DEBINSKI = ''lasdebinski''"

text \<open>
  A row of the results table, as the scanner handles it: a \<^verbatim>\<open>Results-table-row\<close> tag of
  the parsed page with its attributes \<^verbatim>\<open>data-runs\<close>, \<^verbatim>\<open>data-name\<close> and \<^verbatim>\<open>data-agegroup\<close>.
  Attribute values are text: \<^verbatim>\<open>generate_key\<close> formats \<^verbatim>\<open>data-runs\<close> as it stands, while
  \<^verbatim>\<open>check_milestone\<close> and the sort key read it through \<^verbatim>\<open>int(...)\<close>. The attribute
  \<^verbatim>\<open>data-event-id\<close> is absent on a freshly parsed row and written by the scanner, hence an
  option.
\<close>

record Parkrunner =
  data_runs :: string
  data_name :: string
  data_agegroup :: string
  data_event_id :: "int option"

definition SUPPORTED_MILESTONES :: "int set" where
  "SUPPORTED_MILESTONES = {25, 50, 100, 250, 500}"

definition SUPPORTED_JUNIOR_MILESTONES :: "int set" where
  "SUPPORTED_JUNIOR_MILESTONES = {10}"

datatype error =
  RequestException | AssertionError int | AttributeError | HeaderError | ValueError

subsection \<open>Python's \<^verbatim>\<open>int\<close> of a string and \<^verbatim>\<open>str\<close> of an integer\<close>

text \<open>
  \<^verbatim>\<open>int(s)\<close> on ASCII text: surrounding whitespace is dropped, then an optional sign and
  decimal digits, where single underscores may separate digits; leading zeros are allowed.
  Anything else raises \<^verbatim>\<open>ValueError\<close>, here the value \<open>None\<close>.
\<close>

definition is_space :: "char \<Rightarrow> bool" where
  "is_space c = (c \<in> set [CHR 0x09, CHR 0x0A, CHR 0x0B, CHR 0x0C, CHR 0x0D,
                           CHR 0x1C, CHR 0x1D, CHR 0x1E, CHR 0x1F, CHR 0x20])"

definition digit_value :: "char \<Rightarrow> nat option" where
  "digit_value c = map_of
     [(CHR ''0'', 0), (CHR ''1'', 1), (CHR ''2'', 2), (CHR ''3'', 3), (CHR ''4'', 4),
      (CHR ''5'', 5), (CHR ''6'', 6), (CHR ''7'', 7), (CHR ''8'', 8), (CHR ''9'', 9)] c"

fun digits_ok :: "string \<Rightarrow> bool" where
  "digits_ok [] = False"
| "digits_ok [c] = (digit_value c \<noteq> None)"
| "digits_ok (c # d # cs) =
     (digit_value c \<noteq> None \<and> (if d = CHR ''_'' then digits_ok cs else digits_ok (d # cs)))"

definition digits_value :: "string \<Rightarrow> nat" where
  "digits_value s = foldl (\<lambda>acc d. 10 * acc + d) 0 (List.map_filter digit_value s)"

definition py_nat :: "string \<Rightarrow> nat option" where
  "py_nat s = (if digits_ok s then Some (digits_value s) else None)"

definition strip :: "string \<Rightarrow> string" where
  "strip s = rev (dropWhile is_space (rev (dropWhile is_space s)))"

definition py_int :: "string \<Rightarrow> int option" where
  "py_int s =
     (case strip s of
        [] \<Rightarrow> None
      | c # cs \<Rightarrow>
          if c = CHR ''-'' then map_option (\<lambda>n. - int n) (py_nat cs)
          else if c = CHR ''+'' then map_option int (py_nat cs)
          else map_option int (py_nat (c # cs)))"

text \<open>
  \<^verbatim>\<open>str.format\<close> in the URL template renders the \<^verbatim>\<open>int\<close> event id in decimal, with a leading
  minus sign when it is negative.
\<close>

definition digit_char :: "nat \<Rightarrow> char" where
  "digit_char d = ''0123456789'' ! (d mod 10)"

fun str_nat :: "nat \<Rightarrow> string" where
  "str_nat n = (if n < 10 then [digit_char n] else str_nat (n div 10) @ [digit_char (n mod 10)])"

declare str_nat.simps [simp del]

definition str_int :: "int \<Rightarrow> string" where
  "str_int i = (if i < 0 then CHR ''-'' # str_nat (nat (- i)) else str_nat (nat i))"

subsection \<open>Key generation and the milestone classifier\<close>

text \<open>
  \<^verbatim>\<open>def generate_key(parkrunner):
      return f"{parkrunner['data-runs']}-{parkrunner['data-name']}-{parkrunner['data-agegroup']}"\<close>
  The three attribute texts, joined by hyphens.
\<close>

definition generate_key :: "Parkrunner \<Rightarrow> string" where
  "generate_key parkrunner =
     data_runs parkrunner @ ''-'' @ data_name parkrunner @ ''-'' @ data_agegroup parkrunner"

text \<open>
  The participant triple \<open>(runCount, displayName, ageGroup)\<close> of a row, the run count being
  the number that \<^verbatim>\<open>data-runs\<close> denotes.
\<close>

definition triple :: "Parkrunner \<Rightarrow> int option \<times> string \<times> string" where
  "triple parkrunner =
     (py_int (data_runs parkrunner), data_name parkrunner, data_agegroup parkrunner)"

text \<open>
  \<^verbatim>\<open>def check_milestone(parkrunner):
      runs_count = int(parkrunner["data-runs"]) + 1
      return (runs_count in SUPPORTED_MILESTONES
              or ((parkrunner["data-agegroup"].startswith("J") or not parkrunner["data-agegroup"])
                  and runs_count in SUPPORTED_JUNIOR_MILESTONES))\<close>
\<close>

definition check_milestone :: "Parkrunner \<Rightarrow> error + bool" where
  "check_milestone parkrunner =
     (case py_int (data_runs parkrunner) of
        None \<Rightarrow> Inl ValueError
      | Some runs \<Rightarrow>
          let runs_count = runs + 1 in
          Inr (runs_count \<in> SUPPORTED_MILESTONES
               \<or> ((prefix ''J'' (data_agegroup parkrunner) \<or> data_agegroup parkrunner = [])
                   \<and> runs_count \<in> SUPPORTED_JUNIOR_MILESTONES)))"

subsection \<open>The fetch boundary\<close>

text \<open>
  What \<^verbatim>\<open>requests.get(url, headers=HEADERS)\<close> and the BeautifulSoup queries deliver for a URL:
  no response at all (the request raises), or a response with its status code, the rows of the
  \<^verbatim>\<open>Results-table\<close> (\<open>None\<close> when the page has no such table, so that \<^verbatim>\<open>table.find_all\<close>
  raises) and the event number read from the last \<^verbatim>\<open>span\<close> of the \<^verbatim>\<open>Results-header\<close>
  (\<open>None\<close> when one step of that chain raises).
\<close>

record Response =
  status_code :: int
  results_table :: "Parkrunner list option"
  results_header :: "int option"

type_synonym web = "string \<Rightarrow> Response option"

definition PARKRUN_BASE_URL :: string where
  "PARKRUN_BASE_URL = ''http://www.parkrun.pl/''"

definition LATEST_RESULTS_URL :: "LocationEnum \<Rightarrow> string" where
  "LATEST_RESULTS_URL location =
     PARKRUN_BASE_URL @ location_value location @ ''/results/latestresults/''"

definition EVENT_RESULTS_URL :: "LocationEnum \<Rightarrow> int \<Rightarrow> string" where
  "EVENT_RESULTS_URL location event_id =
     PARKRUN_BASE_URL @ location_value location @ ''/results/'' @ str_int event_id @ ''/''"

text \<open>
  The \<^verbatim>\<open>if event_id: ... else: ...\<close> that chooses the URL (lines 50 to 55). The test is
  Python's truth value of an \<^verbatim>\<open>Optional[int]\<close>: \<^verbatim>\<open>None\<close> and \<^verbatim>\<open>0\<close> are falsy, every other
  integer is truthy.
\<close>

definition request_url :: "LocationEnum \<Rightarrow> int option \<Rightarrow> string" where
  "request_url location event_id =
     (case event_id of
        Some i \<Rightarrow> if i \<noteq> 0 then EVENT_RESULTS_URL location i else LATEST_RESULTS_URL location
      | None \<Rightarrow> LATEST_RESULTS_URL location)"

text \<open>
  The comprehension \<^verbatim>\<open>[finisher for finisher in rows if check_milestone(finisher)]\<close>
  (lines 61 to 63): the rows that qualify, in page order; a row whose run count does not
  convert makes the whole comprehension raise.
\<close>

fun next_celebrants_of :: "Parkrunner list \<Rightarrow> error + Parkrunner list" where
  "next_celebrants_of [] = Inr []"
| "next_celebrants_of (finisher # rows) =
     (case check_milestone finisher of
        Inl e \<Rightarrow> Inl e
      | Inr qualifies \<Rightarrow>
          (case next_celebrants_of rows of
             Inl e \<Rightarrow> Inl e
           | Inr rest \<Rightarrow> Inr (if qualifies then finisher # rest else rest)))"

text \<open>
  \<^verbatim>\<open>fetch_upcoming_milestones_from_event(location, event_id)\<close>: request, assertion on the
  status code, table lookup, the comprehension, and, when \<^verbatim>\<open>event_id\<close> is falsy, the event
  number from the page header.
\<close>

definition fetch_upcoming_milestones_from_event ::
  "web \<Rightarrow> LocationEnum \<Rightarrow> int option \<Rightarrow> error + (Parkrunner list \<times> int)" where
  "fetch_upcoming_milestones_from_event w location event_id =
     (case w (request_url location event_id) of
        None \<Rightarrow> Inl RequestException
      | Some response \<Rightarrow>
          if status_code response \<noteq> 200 then Inl (AssertionError (status_code response))
          else (case results_table response of
                  None \<Rightarrow> Inl AttributeError
                | Some rows \<Rightarrow>
                    (case next_celebrants_of rows of
                       Inl e \<Rightarrow> Inl e
                     | Inr next_celebrants \<Rightarrow>
                         (case event_id of
                            Some i \<Rightarrow>
                              if i \<noteq> 0 then Inr (next_celebrants, i)
                              else (case results_header response of
                                      None \<Rightarrow> Inl HeaderError
                                    | Some latest \<Rightarrow> Inr (next_celebrants, latest))
                          | None \<Rightarrow>
                              (case results_header response of
                                 None \<Rightarrow> Inl HeaderError
                               | Some latest \<Rightarrow> Inr (next_celebrants, latest))))))"

subsection \<open>The scanner\<close>

text \<open>
  \<^verbatim>\<open>sorted(next_celebrants, key=lambda x: int(x["data-runs"]))\<close>: the key of every element is
  computed first (a run count that does not convert raises), then the elements are sorted by
  their keys; the sort is stable.
\<close>

definition sorted_by_runs :: "Parkrunner list \<Rightarrow> error + Parkrunner list" where
  "sorted_by_runs next_celebrants =
     (case those (map (\<lambda>x. map_option (\<lambda>k. (k, x)) (py_int (data_runs x))) next_celebrants) of
        None \<Rightarrow> Inl ValueError
      | Some keyed \<Rightarrow> Inr (map snd (sort_key fst keyed)))"

text \<open>
  The accumulation dict \<^verbatim>\<open>all_celebrants\<close> keeps insertion order, so it is an association
  list that grows at its end. \<open>store_celebrants\<close> is the body of the inner
  \<^verbatim>\<open>for celebrant in sorted(...)\<close> loop (lines 78 to 82): a celebrant whose key is not in the
  dict is stamped with the event id and stored under its key.
\<close>

type_synonym celebrants = "(string \<times> Parkrunner) list"

fun store_celebrants :: "int \<Rightarrow> Parkrunner list \<Rightarrow> celebrants \<Rightarrow> celebrants" where
  "store_celebrants event_id [] all_celebrants = all_celebrants"
| "store_celebrants event_id (celebrant # rest) all_celebrants =
     (let parkrunner_key = generate_key celebrant in
        if map_of all_celebrants parkrunner_key = None
        then store_celebrants event_id rest
               (all_celebrants @ [(parkrunner_key, celebrant\<lparr>data_event_id := Some event_id\<rparr>)])
        else store_celebrants event_id rest all_celebrants)"

text \<open>
  The outer \<^verbatim>\<open>for _ in range(events_limit)\<close> loop (lines 76 to 85), by recursion on the
  number of iterations left. Beside the dict it threads the list of the \<^verbatim>\<open>event_id\<close>
  arguments of the calls to \<^verbatim>\<open>fetch_upcoming_milestones_from_event\<close> made so far, in call
  order. An exception of the fetch or of the sort key propagates out of the loop.
\<close>

fun scan_loop ::
  "web \<Rightarrow> LocationEnum \<Rightarrow> nat \<Rightarrow> int option \<Rightarrow> celebrants \<Rightarrow> int option list
    \<Rightarrow> (error + celebrants) \<times> int option list" where
  "scan_loop w location 0 event_id all_celebrants calls = (Inr all_celebrants, calls)"
| "scan_loop w location (Suc k) event_id all_celebrants calls =
     (case fetch_upcoming_milestones_from_event w location event_id of
        Inl e \<Rightarrow> (Inl e, calls @ [event_id])
      | Inr (next_celebrants, fetched_id) \<Rightarrow>
          (case sorted_by_runs next_celebrants of
             Inl e \<Rightarrow> (Inl e, calls @ [event_id])
           | Inr sorted_celebrants \<Rightarrow>
               let all_celebrants' = store_celebrants fetched_id sorted_celebrants all_celebrants;
                   event_id' = fetched_id - 1
               in if event_id' = 0 then (Inr all_celebrants', calls @ [event_id])
                  else scan_loop w location k (Some event_id') all_celebrants'
                         (calls @ [event_id])))"

text \<open>
  \<^verbatim>\<open>detect_milestones(location, events_limit)\<close>: the loop from \<^verbatim>\<open>event_id = None\<close> and an
  empty dict, \<^verbatim>\<open>range(events_limit)\<close> being empty for a non-positive limit, then
  \<^verbatim>\<open>list(all_celebrants.values())\<close>. The second component is the list of fetch calls.
\<close>

definition detect_milestones ::
  "web \<Rightarrow> LocationEnum \<Rightarrow> int \<Rightarrow> (error + Parkrunner list) \<times> int option list" where
  "detect_milestones w location events_limit =
     (case scan_loop w location (nat events_limit) None [] [] of
        (Inl e, calls) \<Rightarrow> (Inl e, calls)
      | (Inr all_celebrants, calls) \<Rightarrow> (Inr (map snd all_celebrants), calls))"

subsection \<open>Stub fetchers\<close>

text \<open>
  Fetchers for the scans of the specification's testable properties: \<open>serve\<close> answers the
  listed URLs with their pages and every other URL with a 404 response; \<open>results_page\<close> is a
  page with a results table and the event number in its header; \<open>runner\<close> is a freshly
  parsed row, not yet stamped.
\<close>

definition not_found :: Response where
  "not_found = \<lparr>status_code = 404, results_table = None, results_header = None\<rparr>"

definition results_page :: "Parkrunner list \<Rightarrow> int \<Rightarrow> Response" where
  "results_page rows n = \<lparr>status_code = 200, results_table = Some rows, results_header = Some n\<rparr>"

definition serve :: "(string \<times> Response) list \<Rightarrow> web" where
  "serve pages url = (case map_of pages url of None \<Rightarrow> Some not_found | Some r \<Rightarrow> Some r)"

definition runner :: "string \<Rightarrow> string \<Rightarrow> string \<Rightarrow> Parkrunner" where
  "runner runs name agegroup =
     \<lparr>data_runs = runs, data_name = name, data_agegroup = agegroup, data_event_id = None\<rparr>"

definition example_web :: web where
  "example_web = serve
     [(LATEST_RESULTS_URL CYTADELA, results_page [runner ''24'' ''A'' '''', runner ''49'' ''B'' ''SW30''] 10),
      (EVENT_RESULTS_URL CYTADELA 9, results_page [runner ''23'' ''A'' ''''] 9)]"

definition three_events_web :: web where
  "three_events_web = serve
     [(LATEST_RESULTS_URL CYTADELA, results_page [] 3),
      (EVENT_RESULTS_URL CYTADELA 3, results_page [] 3),
      (EVENT_RESULTS_URL CYTADELA 2, results_page [] 2),
      (EVENT_RESULTS_URL CYTADELA 1, results_page [] 1)]"

definition header_zero_web :: web where
  "header_zero_web = serve [(LATEST_RESULTS_URL CYTADELA, results_page [] 0)]"

definition colliding_web :: web where
  "colliding_web = serve
     [(LATEST_RESULTS_URL CYTADELA,
       results_page [runner ''24'' ''A-B'' ''C'', runner ''24'' ''A'' ''B-C''] 10),
      (EVENT_RESULTS_URL CYTADELA 9, results_page [runner ''24'' ''A'' ''B-C''] 9)]"

definition leading_zero_web :: web where
  "leading_zero_web = serve
     [(LATEST_RESULTS_URL CYTADELA, results_page [runner ''24'' ''A'' ''SM35-39''] 10),
      (EVENT_RESULTS_URL CYTADELA 9, results_page [runner ''024'' ''A'' ''SM35-39''] 9)]"

definition stale_web :: web where
  "stale_web = serve
     [(LATEST_RESULTS_URL CYTADELA, results_page [runner ''49'' ''B'' ''SW30''] 10),
      (EVENT_RESULTS_URL CYTADELA 9,
       results_page [runner ''99'' ''C'' ''VM40-44'', runner ''24'' ''A'' ''''] 9),
      (EVENT_RESULTS_URL CYTADELA 8, results_page [runner ''24'' ''A'' ''''] 8)]"

definition broken_web :: web where
  "broken_web = serve [(LATEST_RESULTS_URL CYTADELA, results_page [runner ''24'' ''A'' ''''] 3)]"

definition extended_web :: web where
  "extended_web = serve
     [(LATEST_RESULTS_URL CYTADELA, results_page [runner ''24'' ''A'' '''', runner ''49'' ''B'' ''SW30''] 10),
      (EVENT_RESULTS_URL CYTADELA 9, results_page [runner ''23'' ''A'' ''''] 9),
      (EVENT_RESULTS_URL CYTADELA 8, results_page [runner ''99'' ''C'' ''VM40-44''] 8)]"

definition zero_page_web :: web where
  "zero_page_web = serve
     [(LATEST_RESULTS_URL CYTADELA, results_page [runner ''24'' ''A'' ''''] 7),
      (EVENT_RESULTS_URL CYTADELA 0, results_page [runner ''49'' ''B'' ''SW30''] 0)]"

section \<open>Auxiliary facts\<close>

subsection \<open>Run-count texts\<close>

lemma digit_value_dash [simp]: "digit_value (CHR ''-'') = None"
  by (simp add: digit_value_def)

lemma digits_ok_no_dash: "digits_ok s \<Longrightarrow> CHR ''-'' \<notin> set s"
  by (induction s rule: digits_ok.induct) (auto split: if_splits)

lemma py_nat_dash: "CHR ''-'' \<in> set s \<Longrightarrow> py_nat s = None"
  using digits_ok_no_dash by (auto simp: py_nat_def)

lemma not_space_dash [simp]: "\<not> is_space (CHR ''-'')"
  by (simp add: is_space_def)

lemma strip_append_dash:
  assumes "dropWhile is_space t \<noteq> []"
  shows "\<exists>z. strip (t @ CHR ''-'' # u) = dropWhile is_space t @ CHR ''-'' # z"
proof -
  let ?d = "dropWhile is_space t"
  from assms have "\<not> (\<forall>x\<in>set t. is_space x)" by (simp add: dropWhile_eq_Nil_conv)
  then have front: "dropWhile is_space (t @ CHR ''-'' # u) = ?d @ CHR ''-'' # u"
    by (simp add: dropWhile_append)
  have "\<exists>y. dropWhile is_space (rev u @ CHR ''-'' # rev ?d) = y @ CHR ''-'' # rev ?d"
  proof (cases "\<forall>x\<in>set (rev u). is_space x")
    case True
    then have "dropWhile is_space (rev u @ CHR ''-'' # rev ?d) = [] @ CHR ''-'' # rev ?d"
      by (simp add: dropWhile_append)
    then show ?thesis by blast
  next
    case False
    then have "dropWhile is_space (rev u @ CHR ''-'' # rev ?d)
        = dropWhile is_space (rev u) @ CHR ''-'' # rev ?d"
      by (simp add: dropWhile_append)
    then show ?thesis by blast
  qed
  then obtain y where "dropWhile is_space (rev u @ CHR ''-'' # rev ?d) = y @ CHR ''-'' # rev ?d"
    by blast
  with front have "strip (t @ CHR ''-'' # u) = ?d @ CHR ''-'' # rev y"
    by (simp add: strip_def)
  then show ?thesis by blast
qed

lemma py_int_append_dash:
  assumes "py_int t \<noteq> None"
  shows "py_int (t @ CHR ''-'' # u) = None"
proof -
  from assms have "strip t \<noteq> []" by (auto simp: py_int_def)
  have "dropWhile is_space t \<noteq> []"
  proof
    assume "dropWhile is_space t = []"
    then have "strip t = []" by (simp only: strip_def rev.simps dropWhile.simps)
    with \<open>strip t \<noteq> []\<close> show False by simp
  qed
  then obtain a r where d: "dropWhile is_space t = a # r" by (cases "dropWhile is_space t") auto
  with strip_append_dash [of t u] obtain z where
    s: "strip (t @ CHR ''-'' # u) = a # (r @ CHR ''-'' # z)" by auto
  have "py_nat (r @ CHR ''-'' # z) = None" "py_nat (a # r @ CHR ''-'' # z) = None"
    by (simp_all add: py_nat_dash)
  with s show ?thesis by (simp add: py_int_def)
qed

lemma runs_text_unique:
  assumes "py_int t1 \<noteq> None" and "py_int t2 \<noteq> None"
    and "t1 @ CHR ''-'' # r1 = t2 @ CHR ''-'' # r2"
  shows "t1 = t2 \<and> r1 = r2"
proof -
  from assms(3) obtain u where
    "(t1 = t2 @ u \<and> u @ CHR ''-'' # r1 = CHR ''-'' # r2)
     \<or> (t1 @ u = t2 \<and> CHR ''-'' # r1 = u @ CHR ''-'' # r2)"
    by (auto simp: append_eq_append_conv2)
  then show ?thesis
  proof
    assume a: "t1 = t2 @ u \<and> u @ CHR ''-'' # r1 = CHR ''-'' # r2"
    show ?thesis
    proof (cases u)
      case Nil
      with a show ?thesis by simp
    next
      case (Cons c u')
      with a have "t1 = t2 @ CHR ''-'' # u'" by simp
      with py_int_append_dash [OF assms(2)] assms(1) show ?thesis by simp
    qed
  next
    assume a: "t1 @ u = t2 \<and> CHR ''-'' # r1 = u @ CHR ''-'' # r2"
    show ?thesis
    proof (cases u)
      case Nil
      with a show ?thesis by simp
    next
      case (Cons c u')
      with a have "t2 = t1 @ CHR ''-'' # u'" by auto
      with py_int_append_dash [OF assms(1)] assms(2) show ?thesis by simp
    qed
  qed
qed

lemma split_at_dash:
  "CHR ''-'' \<notin> set xs \<Longrightarrow> CHR ''-'' \<notin> set ys \<Longrightarrow>
   xs @ CHR ''-'' # u = ys @ CHR ''-'' # v \<Longrightarrow> xs = ys \<and> u = v"
proof (induction xs arbitrary: ys)
  case Nil
  then show ?case by (cases ys) auto
next
  case (Cons x xs)
  then show ?case by (cases ys) auto
qed

lemma split_at_last_dash:
  assumes "CHR ''-'' \<notin> set u" and "CHR ''-'' \<notin> set v"
    and "xs @ CHR ''-'' # u = ys @ CHR ''-'' # v"
  shows "xs = ys \<and> u = v"
proof -
  from assms(3) have "rev (xs @ CHR ''-'' # u) = rev (ys @ CHR ''-'' # v)" by simp
  then have "rev u @ CHR ''-'' # rev xs = rev v @ CHR ''-'' # rev ys" by simp
  with assms(1,2) have "rev u = rev v \<and> rev xs = rev ys"
    by (intro split_at_dash) simp_all
  then show ?thesis by simp
qed

subsection \<open>Keys\<close>

lemma generate_key_stamp [simp]:
  "generate_key (c\<lparr>data_event_id := x\<rparr>) = generate_key c"
  by (simp add: generate_key_def)

lemma generate_key_eq_iff:
  assumes "py_int (data_runs p) \<noteq> None" and "py_int (data_runs q) \<noteq> None"
  shows "generate_key p = generate_key q \<longleftrightarrow>
    data_runs p = data_runs q
    \<and> data_name p @ ''-'' @ data_agegroup p = data_name q @ ''-'' @ data_agegroup q"
  using runs_text_unique [OF assms] by (auto simp: generate_key_def)

lemma stamp_eq_if_fields:
  "data_runs c = data_runs r \<Longrightarrow> data_name c = data_name r \<Longrightarrow>
   data_agegroup c = data_agegroup r \<Longrightarrow>
   c\<lparr>data_event_id := x\<rparr> = r\<lparr>data_event_id := x\<rparr>"
  for c r :: Parkrunner
  by (cases c, cases r) simp

subsection \<open>Celebrants of a page\<close>

lemma check_milestone_parses: "check_milestone p = Inr b \<Longrightarrow> py_int (data_runs p) \<noteq> None"
  by (auto simp: check_milestone_def split: option.splits)

lemma next_celebrants_of_filter:
  "next_celebrants_of rows = Inr cel \<Longrightarrow> cel = filter (\<lambda>p. check_milestone p = Inr True) rows"
  by (induction rows arbitrary: cel) (auto split: sum.splits if_splits)

lemma fetch_celebrants_qualify:
  assumes "fetch_upcoming_milestones_from_event w loc eid = Inr (cel, n)"
  shows "\<forall>p\<in>set cel. check_milestone p = Inr True"
proof -
  from assms obtain rows where "next_celebrants_of rows = Inr cel"
    by (auto simp: fetch_upcoming_milestones_from_event_def
        split: option.splits if_splits sum.splits)
  from next_celebrants_of_filter [OF this] show ?thesis by simp
qed

lemma those_keyed:
  "those (map (\<lambda>x. map_option (\<lambda>k. (k, x)) (f x)) ps) = Some keyed \<Longrightarrow> map snd keyed = ps"
  by (induction ps arbitrary: keyed) (auto split: option.splits)

lemma those_keyed_ex:
  "\<forall>p\<in>set ps. f p \<noteq> None \<Longrightarrow>
   \<exists>keyed. those (map (\<lambda>x. map_option (\<lambda>k. (k, x)) (f x)) ps) = Some keyed"
  by (induction ps) auto

lemma sorted_by_runs_set: "sorted_by_runs ps = Inr s \<Longrightarrow> set s = set ps"
proof -
  assume "sorted_by_runs ps = Inr s"
  then obtain keyed where
    k: "those (map (\<lambda>x. map_option (\<lambda>k. (k, x)) (py_int (data_runs x))) ps) = Some keyed"
    and s: "s = map snd (sort_key fst keyed)"
    by (auto simp: sorted_by_runs_def split: option.splits)
  from s have "set s = snd ` set keyed" by simp
  also have "\<dots> = set (map snd keyed)" by simp
  also have "\<dots> = set ps" using those_keyed [OF k] by simp
  finally show ?thesis .
qed

lemma sorted_by_runs_ex:
  "\<forall>p\<in>set ps. py_int (data_runs p) \<noteq> None \<Longrightarrow> \<exists>s. sorted_by_runs ps = Inr s"
  using those_keyed_ex [of ps "\<lambda>x. py_int (data_runs x)"]
  by (auto simp: sorted_by_runs_def)

lemma fetch_sortable:
  assumes "fetch_upcoming_milestones_from_event w loc eid = Inr (cel, n)"
  shows "\<exists>s. sorted_by_runs cel = Inr s"
  using fetch_celebrants_qualify [OF assms] check_milestone_parses
  by (intro sorted_by_runs_ex) blast

lemma fetch_explicit_id:
  "fetch_upcoming_milestones_from_event w loc (Some j) = Inr (cel, n) \<Longrightarrow> j \<noteq> 0 \<Longrightarrow> n = j"
  by (auto simp: fetch_upcoming_milestones_from_event_def
      split: option.splits if_splits sum.splits)

lemma fetch_depends_on_page:
  "w2 (request_url loc a) = w1 (request_url loc a) \<Longrightarrow>
   fetch_upcoming_milestones_from_event w2 loc a = fetch_upcoming_milestones_from_event w1 loc a"
  by (simp add: fetch_upcoming_milestones_from_event_def)

subsection \<open>The inner loop\<close>

lemma store_celebrants_new:
  "map_of ac (generate_key c) = None \<Longrightarrow>
   store_celebrants e (c # cs) ac =
     store_celebrants e cs (ac @ [(generate_key c, c\<lparr>data_event_id := Some e\<rparr>)])"
  by simp

lemma store_celebrants_old:
  "map_of ac (generate_key c) \<noteq> None \<Longrightarrow>
   store_celebrants e (c # cs) ac = store_celebrants e cs ac"
  by (cases "map_of ac (generate_key c)") simp_all

declare store_celebrants.simps(2) [simp del]

lemma store_celebrants_prefix: "prefix ac (store_celebrants e cs ac)"
proof (induction cs arbitrary: ac)
  case Nil
  show ?case by simp
next
  case (Cons c cs)
  show ?case
  proof (cases "map_of ac (generate_key c) = None")
    case True
    have "prefix ac (ac @ [(generate_key c, c\<lparr>data_event_id := Some e\<rparr>)])" by simp
    also have "prefix \<dots> (store_celebrants e (c # cs) ac)"
      using Cons.IH by (simp add: store_celebrants_new [OF True])
    finally show ?thesis .
  next
    case False
    then show ?thesis using Cons.IH by (simp add: store_celebrants_old)
  qed
qed

lemma store_celebrants_keyed:
  "\<forall>kv\<in>set ac. fst kv = generate_key (snd kv) \<Longrightarrow>
   \<forall>kv\<in>set (store_celebrants e cs ac). fst kv = generate_key (snd kv)"
proof (induction cs arbitrary: ac)
  case Nil
  then show ?case by simp
next
  case (Cons c cs)
  show ?case
  proof (cases "map_of ac (generate_key c) = None")
    case True
    have "\<forall>kv\<in>set (ac @ [(generate_key c, c\<lparr>data_event_id := Some e\<rparr>)]).
            fst kv = generate_key (snd kv)"
      using Cons.prems by simp
    from Cons.IH [OF this] show ?thesis by (simp add: store_celebrants_new [OF True])
  next
    case False
    from Cons.IH [OF Cons.prems] show ?thesis by (simp add: store_celebrants_old [OF False])
  qed
qed

lemma store_celebrants_distinct:
  "distinct (map fst ac) \<Longrightarrow> distinct (map fst (store_celebrants e cs ac))"
proof (induction cs arbitrary: ac)
  case Nil
  then show ?case by simp
next
  case (Cons c cs)
  show ?case
  proof (cases "map_of ac (generate_key c) = None")
    case True
    then have "generate_key c \<notin> fst ` set ac" by (simp add: map_of_eq_None_iff)
    with Cons.prems have "distinct (map fst (ac @ [(generate_key c, c\<lparr>data_event_id := Some e\<rparr>)]))"
      by simp
    from Cons.IH [OF this] show ?thesis by (simp add: store_celebrants_new [OF True])
  next
    case False
    from Cons.IH [OF Cons.prems] show ?thesis by (simp add: store_celebrants_old [OF False])
  qed
qed

lemma map_of_prefix:
  "prefix xs ys \<Longrightarrow> map_of xs k = Some v \<Longrightarrow> map_of ys k = Some v"
  by (auto elim!: prefixE simp: map_add_Some_iff)

lemma store_celebrants_first:
  "map_of ac k = None \<Longrightarrow> find (\<lambda>q. generate_key q = k) cs = Some c \<Longrightarrow>
   map_of (store_celebrants e cs ac) k = Some (c\<lparr>data_event_id := Some e\<rparr>)"
proof (induction cs arbitrary: ac)
  case Nil
  then show ?case by simp
next
  case (Cons d cs)
  show ?case
  proof (cases "generate_key d = k")
    case True
    with Cons.prems have dc: "d = c" by simp
    let ?ac = "ac @ [(k, c\<lparr>data_event_id := Some e\<rparr>)]"
    have "map_of ?ac k = Some (c\<lparr>data_event_id := Some e\<rparr>)"
      using Cons.prems(1) by (simp add: map_add_Some_iff)
    from map_of_prefix [OF store_celebrants_prefix this]
    show ?thesis using True dc Cons.prems(1) by (simp add: store_celebrants_new)
  next
    case False
    with Cons.prems have f: "find (\<lambda>q. generate_key q = k) cs = Some c" by simp
    show ?thesis
    proof (cases "map_of ac (generate_key d) = None")
      case True
      have "map_of (ac @ [(generate_key d, d\<lparr>data_event_id := Some e\<rparr>)]) k = None"
        using Cons.prems(1) False by (simp add: map_add_def)
      from Cons.IH [OF this f] show ?thesis by (simp add: store_celebrants_new [OF True])
    next
      case F: False
      from Cons.IH [OF Cons.prems(1) f] show ?thesis by (simp add: store_celebrants_old [OF F])
    qed
  qed
qed

lemma store_celebrants_absent:
  "map_of ac k = None \<Longrightarrow> k \<notin> generate_key ` set cs \<Longrightarrow>
   map_of (store_celebrants e cs ac) k = None"
proof (induction cs arbitrary: ac)
  case Nil
  then show ?case by simp
next
  case (Cons d cs)
  from Cons.prems(2) have dk: "generate_key d \<noteq> k" and rest: "k \<notin> generate_key ` set cs"
    by auto
  show ?case
  proof (cases "map_of ac (generate_key d) = None")
    case True
    have "map_of (ac @ [(generate_key d, d\<lparr>data_event_id := Some e\<rparr>)]) k = None"
      using Cons.prems(1) dk by (simp add: map_add_def)
    from Cons.IH [OF this rest] show ?thesis by (simp add: store_celebrants_new [OF True])
  next
    case False
    from Cons.IH [OF Cons.prems(1) rest] show ?thesis
      by (simp add: store_celebrants_old [OF False])
  qed
qed

lemma find_Some_set: "find P xs = Some x \<Longrightarrow> x \<in> set xs \<and> P x"
  by (induction xs) (auto split: if_splits)

lemma filter_key_unique:
  "distinct (map fst xs) \<Longrightarrow> \<forall>kv\<in>set xs. fst kv = generate_key (snd kv) \<Longrightarrow>
   map_of xs k = Some v \<Longrightarrow> filter (\<lambda>p. generate_key p = k) (map snd xs) = [v]"
proof (induction xs)
  case Nil
  then show ?case by simp
next
  case (Cons x xs)
  obtain a b where x: "x = (a, b)" by (cases x)
  show ?case
  proof (cases "a = k")
    case True
    with Cons.prems x have v: "b = v" and gk: "generate_key b = k" by auto
    from Cons.prems(1) x True have "k \<notin> fst ` set xs" by simp
    with Cons.prems(2) have "\<forall>p\<in>set (map snd xs). generate_key p \<noteq> k"
      by force
    then have "filter (\<lambda>p. generate_key p = k) (map snd xs) = []"
      by (simp add: filter_empty_conv)
    with v gk x show ?thesis by simp
  next
    case False
    with Cons.prems x have "generate_key b \<noteq> k" "map_of xs k = Some v" by auto
    with Cons x show ?thesis by simp
  qed
qed

subsection \<open>The outer loop\<close>

lemma scan_loop_Suc_fail:
  "fetch_upcoming_milestones_from_event w loc eid = Inl e \<Longrightarrow>
   scan_loop w loc (Suc k) eid ac calls = (Inl e, calls @ [eid])"
  by simp

lemma scan_loop_Suc_stop:
  "fetch_upcoming_milestones_from_event w loc eid = Inr (cel, n) \<Longrightarrow>
   sorted_by_runs cel = Inr s \<Longrightarrow> n - 1 = 0 \<Longrightarrow>
   scan_loop w loc (Suc k) eid ac calls = (Inr (store_celebrants n s ac), calls @ [eid])"
  by simp

lemma scan_loop_Suc_continue:
  "fetch_upcoming_milestones_from_event w loc eid = Inr (cel, n) \<Longrightarrow>
   sorted_by_runs cel = Inr s \<Longrightarrow> n - 1 \<noteq> 0 \<Longrightarrow>
   scan_loop w loc (Suc k) eid ac calls =
     scan_loop w loc k (Some (n - 1)) (store_celebrants n s ac) (calls @ [eid])"
  by simp

declare scan_loop.simps(2) [simp del]

lemma scan_loop_cases [consumes 1, case_names fail stop continue]:
  assumes "scan_loop w loc (Suc k) eid ac calls = (r, calls')"
  obtains e where "fetch_upcoming_milestones_from_event w loc eid = Inl e"
      "r = Inl e" "calls' = calls @ [eid]"
  | cel n s where "fetch_upcoming_milestones_from_event w loc eid = Inr (cel, n)"
      "sorted_by_runs cel = Inr s" "n - 1 = 0"
      "r = Inr (store_celebrants n s ac)" "calls' = calls @ [eid]"
  | cel n s where "fetch_upcoming_milestones_from_event w loc eid = Inr (cel, n)"
      "sorted_by_runs cel = Inr s" "n - 1 \<noteq> 0"
      "scan_loop w loc k (Some (n - 1)) (store_celebrants n s ac) (calls @ [eid]) = (r, calls')"
proof (cases "fetch_upcoming_milestones_from_event w loc eid")
  case (Inl e)
  with assms that(1) show ?thesis by (simp add: scan_loop_Suc_fail)
next
  case (Inr res)
  obtain cel n where res: "res = (cel, n)" by (cases res)
  from fetch_sortable Inr res obtain s where s: "sorted_by_runs cel = Inr s" by blast
  show ?thesis
  proof (cases "n - 1 = 0")
    case True
    with assms Inr res s that(2) show ?thesis by (simp add: scan_loop_Suc_stop)
  next
    case False
    with assms Inr res s that(3) show ?thesis by (simp add: scan_loop_Suc_continue)
  qed
qed

lemma scan_loop_prefix:
  "scan_loop w loc k eid ac calls = (Inr m, calls') \<Longrightarrow> prefix ac m"
proof (induction k arbitrary: eid ac calls)
  case 0
  then show ?case by simp
next
  case (Suc k)
  from Suc.prems show ?case
  proof (cases rule: scan_loop_cases)
    case (fail e)
    then show ?thesis by simp
  next
    case (stop cel n s)
    then show ?thesis by (simp add: store_celebrants_prefix)
  next
    case (continue cel n s)
    have "prefix ac (store_celebrants n s ac)" by (rule store_celebrants_prefix)
    also have "prefix \<dots> m" using continue(4) by (rule Suc.IH)
    finally show ?thesis .
  qed
qed

lemma scan_loop_invariant:
  "scan_loop w loc k eid ac calls = (Inr m, calls') \<Longrightarrow>
   distinct (map fst ac) \<Longrightarrow> \<forall>kv\<in>set ac. fst kv = generate_key (snd kv) \<Longrightarrow>
   distinct (map fst m) \<and> (\<forall>kv\<in>set m. fst kv = generate_key (snd kv))"
proof (induction k arbitrary: eid ac calls)
  case 0
  then show ?case by simp
next
  case (Suc k)
  from Suc.prems(1) show ?case
  proof (cases rule: scan_loop_cases)
    case (fail e)
    then show ?thesis by simp
  next
    case (stop cel n s)
    with store_celebrants_distinct [OF Suc.prems(2)] store_celebrants_keyed [OF Suc.prems(3)]
    show ?thesis by simp
  next
    case (continue cel n s)
    from Suc.IH [OF continue(4) store_celebrants_distinct [OF Suc.prems(2)]
        store_celebrants_keyed [OF Suc.prems(3)]]
    show ?thesis .
  qed
qed

lemma scan_loop_calls: "scan_loop w loc k eid ac calls = (r, calls') \<Longrightarrow> prefix calls calls'"
proof (induction k arbitrary: eid ac calls)
  case 0
  then show ?case by simp
next
  case (Suc k)
  from Suc.prems show ?case
  proof (cases rule: scan_loop_cases)
    case (continue cel n s)
    from Suc.IH [OF continue(4)] show ?thesis by (rule append_prefixD)
  qed simp_all
qed

lemma scan_loop_first_call:
  assumes "scan_loop w loc (Suc k) eid ac calls = (r, calls')"
  shows "prefix (calls @ [eid]) calls'"
  using assms
proof (cases rule: scan_loop_cases)
  case (continue cel n s)
  then show ?thesis by (simp add: scan_loop_calls)
qed simp_all

lemma detect_milestones_loop:
  "detect_milestones w loc events_limit = (Inr res, calls) \<Longrightarrow>
   \<exists>m. scan_loop w loc (nat events_limit) None [] [] = (Inr m, calls) \<and> res = map snd m"
  by (auto simp: detect_milestones_def split: prod.splits sum.splits)

lemma detect_milestones_calls:
  "detect_milestones w loc events_limit = (r, calls) \<Longrightarrow>
   \<exists>r0. scan_loop w loc (nat events_limit) None [] [] = (r0, calls)
     \<and> (\<forall>e. r0 = Inl e \<longleftrightarrow> r = Inl e) \<and> (\<forall>m. r0 = Inr m \<longrightarrow> r = Inr (map snd m))"
  by (auto simp: detect_milestones_def split: prod.splits sum.splits)

lemma scan_loop_failure:
  "scan_loop w loc k eid ac calls = (r, calls') \<Longrightarrow>
   \<exists>ext. calls' = calls @ ext \<and>
     (\<forall>i<length ext. \<forall>e. fetch_upcoming_milestones_from_event w loc (ext ! i) = Inl e
        \<longrightarrow> r = Inl e \<and> Suc i = length ext)"
proof (induction k arbitrary: eid ac calls)
  case 0
  then show ?case by simp
next
  case (Suc k)
  from Suc.prems show ?case
  proof (cases rule: scan_loop_cases)
    case (fail e)
    then show ?thesis by simp
  next
    case (stop cel n s)
    then show ?thesis by simp
  next
    case (continue cel n s)
    from Suc.IH [OF continue(4)] obtain ext where
      ext: "calls' = (calls @ [eid]) @ ext"
      and f: "\<forall>i<length ext. \<forall>e. fetch_upcoming_milestones_from_event w loc (ext ! i) = Inl e
        \<longrightarrow> r = Inl e \<and> Suc i = length ext"
      by blast
    have "\<forall>i<length (eid # ext). \<forall>e.
        fetch_upcoming_milestones_from_event w loc ((eid # ext) ! i) = Inl e
        \<longrightarrow> r = Inl e \<and> Suc i = length (eid # ext)"
    proof (intro allI impI)
      fix i e
      assume i: "i < length (eid # ext)"
        and e: "fetch_upcoming_milestones_from_event w loc ((eid # ext) ! i) = Inl e"
      show "r = Inl e \<and> Suc i = length (eid # ext)"
      proof (cases i)
        case 0
        with e continue(1) show ?thesis by simp
      next
        case (Suc j)
        with i e f show ?thesis by simp
      qed
    qed
    with ext show ?thesis by (intro exI [of _ "eid # ext"]) simp
  qed
qed

lemma scan_loop_agree:
  "scan_loop w1 loc k eid ac calls = (r, calls') \<Longrightarrow>
   \<forall>a\<in>set calls'. w2 (request_url loc a) = w1 (request_url loc a) \<Longrightarrow>
   scan_loop w2 loc k eid ac calls = (r, calls')"
proof (induction k arbitrary: eid ac calls)
  case 0
  then show ?case by simp
next
  case (Suc k)
  from scan_loop_first_call [OF Suc.prems(1)] have "eid \<in> set calls'"
    by (auto elim!: prefixE)
  with Suc.prems(2) have same:
    "fetch_upcoming_milestones_from_event w2 loc eid = fetch_upcoming_milestones_from_event w1 loc eid"
    by (intro fetch_depends_on_page) blast
  from Suc.prems(1) show ?case
  proof (cases rule: scan_loop_cases)
    case (fail e)
    with same show ?thesis by (simp add: scan_loop_Suc_fail)
  next
    case (stop cel n s)
    with same show ?thesis by (simp add: scan_loop_Suc_stop)
  next
    case (continue cel n s)
    from Suc.IH [OF continue(4) Suc.prems(2)] continue(1,2,3) same
    show ?thesis by (simp add: scan_loop_Suc_continue)
  qed
qed

lemma scan_loop_exact_calls:
  "scan_loop w loc k (Some j) ac calls = (r, calls') \<Longrightarrow> j \<noteq> 0 \<Longrightarrow>
   \<exists>ext. calls' = calls @ ext
     \<and> prefix ext (map (\<lambda>i. Some (j - int i)) [0..<(if 0 < j \<and> nat j \<le> k then nat j else k)])
     \<and> ((\<exists>m. r = Inr m) \<longrightarrow>
          ext = map (\<lambda>i. Some (j - int i)) [0..<(if 0 < j \<and> nat j \<le> k then nat j else k)])"
proof (induction k arbitrary: j ac calls)
  case 0
  then show ?case by simp
next
  case (Suc k)
  let ?M = "if 0 < j \<and> nat j \<le> Suc k then nat j else Suc k"
  let ?M' = "if 0 < j - 1 \<and> nat (j - 1) \<le> k then nat (j - 1) else k"
  have shift: "map (\<lambda>i. Some (j - int i)) [0..<Suc n]
      = Some j # map (\<lambda>i. Some (j - 1 - int i)) [0..<n]" for n
    by (simp add: map_upt_Suc del: upt_Suc)
  from Suc.prems(1) show ?case
  proof (cases rule: scan_loop_cases)
    case (fail e)
    from Suc.prems(2) obtain n where M: "?M = Suc n" by (cases ?M) (auto split: if_splits)
    have "prefix [Some j] (map (\<lambda>i. Some (j - int i)) [0..<?M])"
      unfolding M shift by simp
    with fail show ?thesis by (intro exI [of _ "[Some j]"]) simp
  next
    case (stop cel n s)
    from fetch_explicit_id [OF stop(1) Suc.prems(2)] stop(3) have j: "j = 1" by simp
    then have "map (\<lambda>i. Some (j - int i)) [0..<?M] = [Some j]" by simp
    with stop show ?thesis by (intro exI [of _ "[Some j]"]) simp
  next
    case (continue cel n s)
    from fetch_explicit_id [OF continue(1) Suc.prems(2)] have n: "n = j" .
    with continue(3) have j1: "j - 1 \<noteq> 0" by simp
    from Suc.IH [OF continue(4) [unfolded n] j1] obtain ext where
      ext: "calls' = (calls @ [Some j]) @ ext"
      and pre: "prefix ext (map (\<lambda>i. Some (j - 1 - int i)) [0..<?M'])"
      and full: "(\<exists>m. r = Inr m) \<longrightarrow> ext = map (\<lambda>i. Some (j - 1 - int i)) [0..<?M']"
      by blast
    from Suc.prems(2) j1 have M: "?M = Suc ?M'" by auto
    have "map (\<lambda>i. Some (j - int i)) [0..<?M] = Some j # map (\<lambda>i. Some (j - 1 - int i)) [0..<?M']"
      unfolding M by (rule shift)
    with ext pre full show ?thesis by (intro exI [of _ "Some j # ext"]) simp
  qed
qed

lemma scan_loop_first_occurrence:
  "scan_loop w loc k eid ac calls = (Inr m, calls') \<Longrightarrow>
   map_of ac key = None \<Longrightarrow> length calls \<le> j \<Longrightarrow> j < length calls' \<Longrightarrow>
   fetch_upcoming_milestones_from_event w loc (calls' ! j) = Inr (cel, n) \<Longrightarrow>
   sorted_by_runs cel = Inr s \<Longrightarrow> find (\<lambda>q. generate_key q = key) s = Some c \<Longrightarrow>
   (\<forall>j'. length calls \<le> j' \<and> j' < j \<longrightarrow>
      (\<forall>cel' n'. fetch_upcoming_milestones_from_event w loc (calls' ! j') = Inr (cel', n')
         \<longrightarrow> key \<notin> generate_key ` set cel')) \<Longrightarrow>
   map_of m key = Some (c\<lparr>data_event_id := Some n\<rparr>)"
proof (induction k arbitrary: eid ac calls)
  case 0
  then show ?case by simp
next
  case (Suc k)
  from scan_loop_first_call [OF Suc.prems(1)] have at: "calls' ! length calls = eid"
    by (auto elim!: prefixE simp: nth_append)
  show ?case
  proof (cases "j = length calls")
    case True
    with at Suc.prems(5) have here: "fetch_upcoming_milestones_from_event w loc eid = Inr (cel, n)"
      by simp
    have stored: "map_of (store_celebrants n s ac) key = Some (c\<lparr>data_event_id := Some n\<rparr>)"
      using Suc.prems(2,7) by (rule store_celebrants_first)
    from Suc.prems(1) show ?thesis
    proof (cases rule: scan_loop_cases)
      case (fail e)
      then show ?thesis by simp
    next
      case (stop cel' n' s')
      with here Suc.prems(6) stored show ?thesis by simp
    next
      case (continue cel' n' s')
      with here Suc.prems(6) have "scan_loop w loc k (Some (n - 1)) (store_celebrants n s ac)
          (calls @ [eid]) = (Inr m, calls')"
        by simp
      from map_of_prefix [OF scan_loop_prefix [OF this] stored] show ?thesis .
    qed
  next
    case False
    with Suc.prems(3) have later: "length calls < j" by simp
    from Suc.prems(1) show ?thesis
    proof (cases rule: scan_loop_cases)
      case (fail e)
      then show ?thesis by simp
    next
      case (stop cel' n' s')
      with later Suc.prems(4) show ?thesis by simp
    next
      case (continue cel' n' s')
      from Suc.prems(8) later at continue(1) have "key \<notin> generate_key ` set cel'"
        by (metis order_refl)
      with sorted_by_runs_set [OF continue(2)] have "key \<notin> generate_key ` set s'" by simp
      with Suc.prems(2) have none: "map_of (store_celebrants n' s' ac) key = None"
        by (rule store_celebrants_absent)
      show ?thesis
      proof (rule Suc.IH [OF continue(4) none _ Suc.prems(4,5,6,7)])
        from later show "length (calls @ [eid]) \<le> j" by simp
      next
        from Suc.prems(8)
        show "\<forall>j'. length (calls @ [eid]) \<le> j' \<and> j' < j \<longrightarrow>
          (\<forall>cel' n'. fetch_upcoming_milestones_from_event w loc (calls' ! j') = Inr (cel', n')
             \<longrightarrow> key \<notin> generate_key ` set cel')"
          by (metis Suc_leD length_append_singleton)
      qed
    qed
  qed
qed

subsection \<open>Evaluation\<close>

lemmas int_defs = py_int_def strip_def is_space_def py_nat_def digits_value_def digit_value_def
  map_filter_simps

lemmas fetch_defs = fetch_upcoming_milestones_from_event_def request_url_def LATEST_RESULTS_URL_def
  EVENT_RESULTS_URL_def PARKRUN_BASE_URL_def str_int_def str_nat.simps digit_char_def
  check_milestone_def SUPPORTED_MILESTONES_def SUPPORTED_JUNIOR_MILESTONES_def
  serve_def results_page_def not_found_def runner_def int_defs

lemmas sort_defs = sorted_by_runs_def runner_def int_defs

lemmas store_defs = store_celebrants.simps generate_key_def runner_def

section \<open>De-duplication keys\<close>

text \<open>
  The key is the text \<open>runs-name-agegroup\<close> of the row, not the triple. Two rows with the same
  triple whose run count 24 is written \<open>024\<close> and \<open>24\<close> have different keys and are stored as two
  entries; two qualifying rows with different names and age groups have the same key
  \<open>24-A-B-C\<close>, and only the first of them is stored.
\<close>

theorem key_is_not_the_triple:
  "triple (runner ''024'' ''A'' ''SM35-39'') = triple (runner ''24'' ''A'' ''SM35-39'')
   \<and> generate_key (runner ''024'' ''A'' ''SM35-39'') \<noteq> generate_key (runner ''24'' ''A'' ''SM35-39'')
   \<and> store_celebrants 9 [runner ''024'' ''A'' ''SM35-39'']
        (store_celebrants 10 [runner ''24'' ''A'' ''SM35-39''] [])
       = [(''24-A-SM35-39'', (runner ''24'' ''A'' ''SM35-39'')\<lparr>data_event_id := Some 10\<rparr>),
          (''024-A-SM35-39'', (runner ''024'' ''A'' ''SM35-39'')\<lparr>data_event_id := Some 9\<rparr>)]
   \<and> triple (runner ''24'' ''A-B'' ''C'') \<noteq> triple (runner ''24'' ''A'' ''B-C'')
   \<and> generate_key (runner ''24'' ''A-B'' ''C'') = generate_key (runner ''24'' ''A'' ''B-C'')
   \<and> check_milestone (runner ''24'' ''A-B'' ''C'') = Inr True
   \<and> check_milestone (runner ''24'' ''A'' ''B-C'') = Inr True
   \<and> store_celebrants 10 [runner ''24'' ''A'' ''B-C''] (store_celebrants 10 [runner ''24'' ''A-B'' ''C''] [])
       = store_celebrants 10 [runner ''24'' ''A-B'' ''C''] []"
  by (simp add: triple_def store_defs int_defs check_milestone_def SUPPORTED_MILESTONES_def)

text \<open>
  C1 (amended). For two participant records (rows whose \<^verbatim>\<open>data-runs\<close> converts to a number)
  the keys are equal, and the scanner merges the second record into the entry of the first (the
  dict after storing both is the dict after storing the first), if and only if their
  \<^verbatim>\<open>data-runs\<close> texts are equal and their texts name, hyphen, age group are equal. Records
  with equal keys have the same run count, and they have the same triple whenever their names
  are equal, or neither name contains a hyphen, or neither age group contains a hyphen.
  Records with the same triple have equal keys if and only if their \<^verbatim>\<open>data-runs\<close> texts are
  equal.
\<close>

theorem generate_key_exact:
  assumes "py_int (data_runs p) \<noteq> None" and "py_int (data_runs q) \<noteq> None"
  shows "(generate_key p = generate_key q \<longleftrightarrow>
            data_runs p = data_runs q
            \<and> data_name p @ ''-'' @ data_agegroup p = data_name q @ ''-'' @ data_agegroup q)
    \<and> (store_celebrants e2 [q] (store_celebrants e1 [p] []) = store_celebrants e1 [p] []
         \<longleftrightarrow> generate_key p = generate_key q)
    \<and> (generate_key p = generate_key q \<longrightarrow> py_int (data_runs p) = py_int (data_runs q))
    \<and> (generate_key p = generate_key q
         \<and> (data_name p = data_name q
              \<or> CHR ''-'' \<notin> set (data_name p) \<and> CHR ''-'' \<notin> set (data_name q)
              \<or> CHR ''-'' \<notin> set (data_agegroup p) \<and> CHR ''-'' \<notin> set (data_agegroup q))
         \<longrightarrow> triple p = triple q)
    \<and> (triple p = triple q \<longrightarrow>
          (generate_key p = generate_key q \<longleftrightarrow> data_runs p = data_runs q))"
proof -
  note exact = generate_key_eq_iff [OF assms]
  have one: "store_celebrants e1 [p] [] = [(generate_key p, p\<lparr>data_event_id := Some e1\<rparr>)]"
    by (simp add: store_celebrants_new)
  have merge: "store_celebrants e2 [q] (store_celebrants e1 [p] []) = store_celebrants e1 [p] []
         \<longleftrightarrow> generate_key p = generate_key q"
  proof (cases "generate_key q = generate_key p")
    case True
    then show ?thesis by (simp add: one store_celebrants_old)
  next
    case False
    then have "map_of [(generate_key p, p\<lparr>data_event_id := Some e1\<rparr>)] (generate_key q) = None"
      by simp
    from store_celebrants_new [OF this] False show ?thesis by (auto simp: one)
  qed
  have same: "triple p = triple q"
    if k: "generate_key p = generate_key q"
      and c: "data_name p = data_name q
              \<or> CHR ''-'' \<notin> set (data_name p) \<and> CHR ''-'' \<notin> set (data_name q)
              \<or> CHR ''-'' \<notin> set (data_agegroup p) \<and> CHR ''-'' \<notin> set (data_agegroup q)"
  proof -
    from k exact have r: "data_runs p = data_runs q"
      and na: "data_name p @ CHR ''-'' # data_agegroup p = data_name q @ CHR ''-'' # data_agegroup q"
      by simp_all
    from c na have "data_name p = data_name q \<and> data_agegroup p = data_agegroup q"
      using split_at_dash [OF _ _ na] split_at_last_dash [OF _ _ na] by auto
    with r show ?thesis by (simp add: triple_def)
  qed
  have t: "generate_key p = generate_key q \<longleftrightarrow> data_runs p = data_runs q"
    if "triple p = triple q"
    using that exact by (auto simp: triple_def)
  from exact merge same t show ?thesis by simp
qed

theorem generate_key_exact_witness:
  "py_int (data_runs (runner ''024'' ''Anna'' ''SM35-39'')) = Some 24
   \<and> py_int (data_runs (runner ''24'' ''Anna'' ''SM35-39'')) = Some 24
   \<and> triple (runner ''024'' ''Anna'' ''SM35-39'') = triple (runner ''24'' ''Anna'' ''SM35-39'')
   \<and> generate_key (runner ''024'' ''Anna'' ''SM35-39'') \<noteq> generate_key (runner ''24'' ''Anna'' ''SM35-39'')
   \<and> store_celebrants 9 [runner ''24'' ''Anna'' ''SM35-39'']
        (store_celebrants 10 [runner ''024'' ''Anna'' ''SM35-39''] [])
       \<noteq> store_celebrants 10 [runner ''024'' ''Anna'' ''SM35-39''] []"
proof -
  have a: "py_int (data_runs (runner ''024'' ''Anna'' ''SM35-39'')) = Some 24"
    and b: "py_int (data_runs (runner ''24'' ''Anna'' ''SM35-39'')) = Some 24"
    by (simp_all add: runner_def int_defs)
  then have a': "py_int (data_runs (runner ''024'' ''Anna'' ''SM35-39'')) \<noteq> None"
    and b': "py_int (data_runs (runner ''24'' ''Anna'' ''SM35-39'')) \<noteq> None"
    by simp_all
  have t: "triple (runner ''024'' ''Anna'' ''SM35-39'') = triple (runner ''24'' ''Anna'' ''SM35-39'')"
    using a b by (simp add: triple_def) (simp add: runner_def)
  have r: "data_runs (runner ''024'' ''Anna'' ''SM35-39'') \<noteq> data_runs (runner ''24'' ''Anna'' ''SM35-39'')"
    by (simp add: runner_def)
  from generate_key_exact [OF a' b', of 9 10] t r a b show ?thesis by blast
qed

section \<open>The early stop of the scan\<close>

text \<open>
  The test after the decrement is \<^verbatim>\<open>if not event_id: break\<close>, which holds for 0 only. When
  the latest page announces event 0, the decremented id is \<open>-1\<close>, the loop goes on and the
  second iteration requests the page of event \<open>-1\<close>.
\<close>

theorem negative_id_is_fetched:
  "detect_milestones header_zero_web CYTADELA 2 = (Inl (AssertionError 404), [None, Some (- 1)])"
proof -
  have f0: "fetch_upcoming_milestones_from_event header_zero_web CYTADELA None = Inr ([], 0)"
    by (simp add: fetch_defs header_zero_web_def)
  have s0: "sorted_by_runs [] = Inr []" by (simp add: sorted_by_runs_def)
  have f1: "fetch_upcoming_milestones_from_event header_zero_web CYTADELA (Some (- 1))
      = Inl (AssertionError 404)"
    by (simp add: fetch_defs header_zero_web_def)
  have n: "nat 2 = Suc (Suc 0)" by simp
  show ?thesis unfolding detect_milestones_def n
    by (simp add: scan_loop_Suc_continue [OF f0 s0] scan_loop_Suc_fail [OF f1])
qed

text \<open>
  C2 (amended). After the decrement the loop stops early exactly when the decremented id is 0.
  Let the latest-results fetch resolve to event id \<open>n\<close>. The fetch calls of the scan are an
  initial part of the list: latest event, \<open>n - 1\<close>, \<open>n - 2\<close>, ..., of length \<open>n\<close> when
  \<open>1 \<le> n \<le> eventsLimit\<close> (the last id is 1, and a larger limit does not matter) and of length
  \<open>eventsLimit\<close> otherwise (then no early stop happens, and for \<open>n \<le> 0\<close> the ids fetched are
  negative). A scan that returns a result list made exactly these calls; a scan that fails
  stopped somewhere in the list. Hence for positive \<open>n\<close> every fetch is for the latest event or
  for a positive event id.
\<close>

theorem early_stop_exactly_at_zero:
  assumes "detect_milestones w loc events_limit = (r, calls)"
    and "fetch_upcoming_milestones_from_event w loc None = Inr (cel, n)"
  shows "prefix calls (map (\<lambda>i. if i = 0 then None else Some (n - int i))
            [0..<(if 0 < n \<and> n \<le> events_limit then nat n else nat events_limit)])
    \<and> ((\<exists>res. r = Inr res) \<longrightarrow>
          calls = map (\<lambda>i. if i = 0 then None else Some (n - int i))
            [0..<(if 0 < n \<and> n \<le> events_limit then nat n else nat events_limit)])
    \<and> (0 < n \<longrightarrow> (\<forall>a\<in>set calls. a = None \<or> (\<exists>i. a = Some i \<and> 0 < i)))"
proof -
  let ?g = "\<lambda>i. if i = 0 then None else Some (n - int i)"
  let ?M = "if 0 < n \<and> n \<le> events_limit then nat n else nat events_limit"
  from detect_milestones_calls [OF assms(1)] obtain r0 where
    l: "scan_loop w loc (nat events_limit) None [] [] = (r0, calls)"
    and ok: "\<forall>m. r0 = Inr m \<longrightarrow> r = Inr (map snd m)"
    and err: "\<forall>e. r0 = Inl e \<longleftrightarrow> r = Inl e"
    by blast
  have shift: "map ?g [0..<Suc k] = None # map (\<lambda>i. Some (n - 1 - int i)) [0..<k]" for k
    by (simp add: map_upt_Suc del: upt_Suc)
  have main: "prefix calls (map ?g [0..<?M]) \<and> ((\<exists>m. r0 = Inr m) \<longrightarrow> calls = map ?g [0..<?M])"
  proof (cases "nat events_limit")
    case 0
    with l show ?thesis by auto
  next
    case (Suc k)
    from l [unfolded Suc] show ?thesis
    proof (cases rule: scan_loop_cases)
      case (fail e)
      with assms(2) show ?thesis by simp
    next
      case (stop cel' n' s)
      with assms(2) have "n = 1" by simp
      moreover from Suc have "1 \<le> events_limit" by arith
      ultimately have "map ?g [0..<?M] = [None]" by simp
      with stop show ?thesis by simp
    next
      case (continue cel' n' s)
      with assms(2) have n': "n' = n" and n1: "n - 1 \<noteq> 0" by simp_all
      from scan_loop_exact_calls [OF continue(4) [unfolded n'] n1] obtain ext where
        ext: "calls = [None] @ ext"
        and pre: "prefix ext (map (\<lambda>i. Some (n - 1 - int i))
            [0..<(if 0 < n - 1 \<and> nat (n - 1) \<le> k then nat (n - 1) else k)])"
        and full: "(\<exists>m. r0 = Inr m) \<longrightarrow> ext = map (\<lambda>i. Some (n - 1 - int i))
            [0..<(if 0 < n - 1 \<and> nat (n - 1) \<le> k then nat (n - 1) else k)]"
        by auto
      from Suc n1 have M: "?M = Suc (if 0 < n - 1 \<and> nat (n - 1) \<le> k then nat (n - 1) else k)"
        by auto
      from ext pre full show ?thesis unfolding M shift by simp
    qed
  qed
  have pos: "\<forall>a\<in>set calls. a = None \<or> (\<exists>i. a = Some i \<and> 0 < i)" if "0 < n"
  proof
    fix a
    assume "a \<in> set calls"
    moreover from main have "prefix calls (map ?g [0..<?M])" by (rule conjunct1)
    then have "set calls \<subseteq> set (map ?g [0..<?M])" by (rule set_mono_prefix)
    moreover have "set (map ?g [0..<?M]) = ?g ` {0..<?M}" by (simp only: set_map set_upt)
    ultimately have "a \<in> ?g ` {0..<?M}" by blast
    then obtain i where "i \<in> {0..<?M}" "a = ?g i" by (rule imageE)
    then have "i < ?M" "a = ?g i" by simp_all
    with that show "a = None \<or> (\<exists>i. a = Some i \<and> 0 < i)"
      by (cases "i = 0") (auto split: if_splits)
  qed
  have "(\<exists>res. r = Inr res) \<longrightarrow> (\<exists>m. r0 = Inr m)"
    using err by (cases r0) auto
  with main pos show ?thesis by blast
qed

theorem early_stop_exactly_at_zero_witness:
  "fetch_upcoming_milestones_from_event three_events_web CYTADELA None = Inr ([], 3)
   \<and> detect_milestones three_events_web CYTADELA 5 = (Inr [], [None, Some 2, Some 1])
   \<and> snd (detect_milestones three_events_web CYTADELA 5)
       = map (\<lambda>i. if i = 0 then None else Some (3 - int i)) [0..<3]
   \<and> Some 0 \<notin> set (snd (detect_milestones three_events_web CYTADELA 5))"
proof -
  have f3: "fetch_upcoming_milestones_from_event three_events_web CYTADELA None = Inr ([], 3)"
    by (simp add: fetch_defs three_events_web_def)
  have f2: "fetch_upcoming_milestones_from_event three_events_web CYTADELA (Some 2) = Inr ([], 2)"
    by (simp add: fetch_defs three_events_web_def)
  have f1: "fetch_upcoming_milestones_from_event three_events_web CYTADELA (Some 1) = Inr ([], 1)"
    by (simp add: fetch_defs three_events_web_def)
  have s: "sorted_by_runs [] = Inr []" by (simp add: sorted_by_runs_def)
  have n: "nat 5 = Suc (Suc (Suc (Suc (Suc 0))))" by simp
  have d: "detect_milestones three_events_web CYTADELA 5 = (Inr [], [None, Some 2, Some 1])"
    unfolding detect_milestones_def n
    by (simp add: scan_loop_Suc_continue [OF f3 s] scan_loop_Suc_continue [OF f2 s]
        scan_loop_Suc_stop [OF f1 s])
  from early_stop_exactly_at_zero [OF d f3]
  have e: "[None, Some 2, Some 1] = map (\<lambda>i. if i = 0 then None else Some (3 - int i)) [0..<3]"
    and p: "\<forall>a\<in>set [None, Some (2::int), Some 1]. a = None \<or> (\<exists>i. a = Some i \<and> 0 < i)"
    by simp_all
  from p have "Some 0 \<notin> set [None, Some (2::int), Some 1]" by auto
  with e f3 d show ?thesis by simp
qed

section \<open>The classifier\<close>

text \<open>
  C3. \<open>check_milestone\<close> holds for a record exactly when its run count plus one is one of
  25, 50, 100, 250, 500, or its age group starts with J or is empty and its run count plus one
  is 10. A record with an empty age group and run count 9 is a milestone, the same run count
  with age group SM35-39 is not, and a run count of 23 (24 after the event) never is.
\<close>

theorem check_milestone_spec:
  "check_milestone p =
     (case py_int (data_runs p) of
        None \<Rightarrow> Inl ValueError
      | Some runs \<Rightarrow>
          Inr (runs + 1 \<in> {25, 50, 100, 250, 500}
               \<or> ((take 1 (data_agegroup p) = ''J'' \<or> data_agegroup p = '''') \<and> runs + 1 \<in> {10})))
   \<and> (py_int (data_runs p) = Some runs \<longrightarrow>
        (check_milestone p = Inr True \<longleftrightarrow>
           runs + 1 \<in> {25, 50, 100, 250, 500}
           \<or> ((take 1 (data_agegroup p) = ''J'' \<or> data_agegroup p = '''') \<and> runs + 1 \<in> {10})))
   \<and> check_milestone (p\<lparr>data_runs := ''9'', data_agegroup := ''''\<rparr>) = Inr True
   \<and> check_milestone (p\<lparr>data_runs := ''9'', data_agegroup := ''SM35-39''\<rparr>) = Inr False
   \<and> (py_int (data_runs p) = Some 23 \<longrightarrow> check_milestone p = Inr False)"
proof -
  have j: "prefix ''J'' a \<longleftrightarrow> take 1 a = ''J''" for a :: string
    by (cases a) auto
  have nine: "py_int ''9'' = Some 9" by (simp add: int_defs)
  show ?thesis
    by (auto simp: check_milestone_def SUPPORTED_MILESTONES_def SUPPORTED_JUNIOR_MILESTONES_def
        j nine split: option.splits)
qed

theorem check_milestone_spec_witness:
  "py_int (data_runs (runner ''023'' ''A'' ''JM10'')) = Some 23
   \<and> check_milestone (runner ''023'' ''A'' ''JM10'') = Inr False
   \<and> py_int (data_runs (runner ''9'' ''A'' ''JM10'')) = Some 9
   \<and> check_milestone (runner ''9'' ''A'' ''JM10'') = Inr True"
proof -
  have a: "py_int (data_runs (runner ''023'' ''A'' ''JM10'')) = Some 23"
    and b: "py_int (data_runs (runner ''9'' ''A'' ''JM10'')) = Some 9"
    by (simp_all add: runner_def int_defs)
  have c: "take 1 (data_agegroup (runner ''9'' ''A'' ''JM10'')) = ''J''"
    by (simp add: runner_def)
  from check_milestone_spec [of "runner ''023'' ''A'' ''JM10''" 23]
    check_milestone_spec [of "runner ''9'' ''A'' ''JM10''" 9] a b c
  show ?thesis by simp
qed

section \<open>First occurrence wins\<close>

text \<open>
  Two consecutive scanned events with the same triple need not give exactly one entry for
  it. When the run count 24 is written \<open>24\<close> in event 10 and \<open>024\<close> in event 9, the result has
  two entries for the triple, stamped 10 and 9. When event 10 lists, before the record, a
  record with another name and the same key text, the result has a single entry, for the other
  name, and none for the triple.
\<close>

theorem same_triple_not_one_entry:
  "fetch_upcoming_milestones_from_event leading_zero_web CYTADELA None
     = Inr ([runner ''24'' ''A'' ''SM35-39''], 10)
   \<and> fetch_upcoming_milestones_from_event leading_zero_web CYTADELA (Some 9)
     = Inr ([runner ''024'' ''A'' ''SM35-39''], 9)
   \<and> triple (runner ''24'' ''A'' ''SM35-39'') = triple (runner ''024'' ''A'' ''SM35-39'')
   \<and> detect_milestones leading_zero_web CYTADELA 2
     = (Inr [(runner ''24'' ''A'' ''SM35-39'')\<lparr>data_event_id := Some 10\<rparr>,
             (runner ''024'' ''A'' ''SM35-39'')\<lparr>data_event_id := Some 9\<rparr>], [None, Some 9])
   \<and> fetch_upcoming_milestones_from_event colliding_web CYTADELA None
     = Inr ([runner ''24'' ''A-B'' ''C'', runner ''24'' ''A'' ''B-C''], 10)
   \<and> fetch_upcoming_milestones_from_event colliding_web CYTADELA (Some 9)
     = Inr ([runner ''24'' ''A'' ''B-C''], 9)
   \<and> detect_milestones colliding_web CYTADELA 2
     = (Inr [(runner ''24'' ''A-B'' ''C'')\<lparr>data_event_id := Some 10\<rparr>], [None, Some 9])
   \<and> triple ((runner ''24'' ''A-B'' ''C'')\<lparr>data_event_id := Some 10\<rparr>)
     \<noteq> triple (runner ''24'' ''A'' ''B-C'')"
proof -
  have z10: "fetch_upcoming_milestones_from_event leading_zero_web CYTADELA None
     = Inr ([runner ''24'' ''A'' ''SM35-39''], 10)"
    by (simp add: fetch_defs leading_zero_web_def)
  have z9: "fetch_upcoming_milestones_from_event leading_zero_web CYTADELA (Some 9)
     = Inr ([runner ''024'' ''A'' ''SM35-39''], 9)"
    by (simp add: fetch_defs leading_zero_web_def)
  have zs10: "sorted_by_runs [runner ''24'' ''A'' ''SM35-39''] = Inr [runner ''24'' ''A'' ''SM35-39'']"
    and zs9: "sorted_by_runs [runner ''024'' ''A'' ''SM35-39''] = Inr [runner ''024'' ''A'' ''SM35-39'']"
    by (simp_all add: sort_defs)
  have zt: "triple (runner ''24'' ''A'' ''SM35-39'') = triple (runner ''024'' ''A'' ''SM35-39'')"
    by (simp add: triple_def runner_def int_defs)
  have f10: "fetch_upcoming_milestones_from_event colliding_web CYTADELA None
     = Inr ([runner ''24'' ''A-B'' ''C'', runner ''24'' ''A'' ''B-C''], 10)"
    by (simp add: fetch_defs colliding_web_def)
  have f9: "fetch_upcoming_milestones_from_event colliding_web CYTADELA (Some 9)
     = Inr ([runner ''24'' ''A'' ''B-C''], 9)"
    by (simp add: fetch_defs colliding_web_def)
  have s10: "sorted_by_runs [runner ''24'' ''A-B'' ''C'', runner ''24'' ''A'' ''B-C'']
      = Inr [runner ''24'' ''A-B'' ''C'', runner ''24'' ''A'' ''B-C'']"
    and s9: "sorted_by_runs [runner ''24'' ''A'' ''B-C''] = Inr [runner ''24'' ''A'' ''B-C'']"
    by (simp_all add: sort_defs)
  have n: "nat 2 = Suc (Suc 0)" by simp
  have zd: "detect_milestones leading_zero_web CYTADELA 2
     = (Inr [(runner ''24'' ''A'' ''SM35-39'')\<lparr>data_event_id := Some 10\<rparr>,
             (runner ''024'' ''A'' ''SM35-39'')\<lparr>data_event_id := Some 9\<rparr>], [None, Some 9])"
    unfolding detect_milestones_def n
    by (simp add: scan_loop_Suc_continue [OF z10 zs10] scan_loop_Suc_continue [OF z9 zs9] store_defs)
  have d: "detect_milestones colliding_web CYTADELA 2
     = (Inr [(runner ''24'' ''A-B'' ''C'')\<lparr>data_event_id := Some 10\<rparr>], [None, Some 9])"
    unfolding detect_milestones_def n
    by (simp add: scan_loop_Suc_continue [OF f10 s10] scan_loop_Suc_continue [OF f9 s9] store_defs)
  have t: "triple ((runner ''24'' ''A-B'' ''C'')\<lparr>data_event_id := Some 10\<rparr>)
     \<noteq> triple (runner ''24'' ''A'' ''B-C'')"
    by (simp add: triple_def runner_def)
  from z10 z9 zt zd f10 f9 d t show ?thesis by (intro conjI)
qed

text \<open>
  C4 (amended). First occurrence wins: a celebrant whose key is already in the accumulation
  dict is discarded. Let a scan succeed and let any scanned event, the \<open>i\<close>-th, contain a
  qualifying record \<open>r\<close>. Then the result has exactly one entry under the key of \<open>r\<close>. It comes
  from the first scanned event, the \<open>j\<close>-th with \<open>j \<le> i\<close>, that contains a qualifying record with
  this key: it is the first such record in the sorted rows of that event, stamped with the id
  of that event, whatever the events scanned later contain (so of two consecutive events that
  both contain the key, the later scanned one never stamps the entry). When in that first event
  every qualifying record with the key of \<open>r\<close> has the name of \<open>r\<close>, the result has exactly one
  entry with the \<^verbatim>\<open>data-runs\<close> text, name and age group of \<open>r\<close>, namely \<open>r\<close> stamped with the id
  of that event.
\<close>

theorem first_occurrence_wins:
  assumes scan: "detect_milestones w loc events_limit = (Inr res, calls)"
    and i: "i < length calls"
    and event: "fetch_upcoming_milestones_from_event w loc (calls ! i) = Inr (cel, n)"
    and r: "r \<in> set cel"
  shows "(\<exists>j\<le>i. \<exists>cel' n' s c.
            fetch_upcoming_milestones_from_event w loc (calls ! j) = Inr (cel', n')
            \<and> sorted_by_runs cel' = Inr s
            \<and> find (\<lambda>q. generate_key q = generate_key r) s = Some c
            \<and> (\<forall>j'<j. \<forall>cel'' n''.
                  fetch_upcoming_milestones_from_event w loc (calls ! j') = Inr (cel'', n'')
                  \<longrightarrow> generate_key r \<notin> generate_key ` set cel'')
            \<and> filter (\<lambda>p. generate_key p = generate_key r) res = [c\<lparr>data_event_id := Some n'\<rparr>]
            \<and> ((\<forall>q\<in>set cel'. generate_key q = generate_key r \<longrightarrow> data_name q = data_name r)
                 \<longrightarrow> filter (\<lambda>p. data_runs p = data_runs r \<and> data_name p = data_name r
                                   \<and> data_agegroup p = data_agegroup r) res
                       = [r\<lparr>data_event_id := Some n'\<rparr>]))
    \<and> (\<forall>ac c cs e. map_of ac (generate_key c) \<noteq> None \<longrightarrow>
          store_celebrants e (c # cs) ac = store_celebrants e cs ac)"
proof -
  let ?k = "generate_key r"
  let ?P = "\<lambda>j. \<exists>cel' n'. fetch_upcoming_milestones_from_event w loc (calls ! j) = Inr (cel', n')
      \<and> ?k \<in> generate_key ` set cel'"
  from detect_milestones_loop [OF scan] obtain m where
    loop: "scan_loop w loc (nat events_limit) None [] [] = (Inr m, calls)"
    and res: "res = map snd m" by blast
  from scan_loop_invariant [OF loop]
  have inv: "distinct (map fst m)" "\<forall>kv\<in>set m. fst kv = generate_key (snd kv)"
    by simp_all
  from event r have "?P i" by blast
  then have "\<exists>j. ?P j \<and> (\<forall>j'<j. \<not> ?P j')" by (rule exists_least_iff [THEN iffD1, OF exI])
  then obtain j where Pj: "?P j" and least: "\<forall>j'<j. \<not> ?P j'" by blast
  from least \<open>?P i\<close> have ji: "j \<le> i" by (meson not_le_imp_less)
  from Pj obtain cel' n' where
    ev: "fetch_upcoming_milestones_from_event w loc (calls ! j) = Inr (cel', n')"
    and has: "?k \<in> generate_key ` set cel'" by blast
  from fetch_sortable [OF ev] obtain s where s: "sorted_by_runs cel' = Inr s" by blast
  from has sorted_by_runs_set [OF s]
  have "find (\<lambda>q. generate_key q = ?k) s \<noteq> None" by (auto simp: find_None_iff)
  then obtain c where c: "find (\<lambda>q. generate_key q = ?k) s = Some c" by blast
  with sorted_by_runs_set [OF s] have c_in: "c \<in> set cel'" and c_key: "generate_key c = ?k"
    by (auto dest: find_Some_set)
  from least have before: "\<forall>j'<j. \<forall>cel'' n''.
      fetch_upcoming_milestones_from_event w loc (calls ! j') = Inr (cel'', n'')
      \<longrightarrow> ?k \<notin> generate_key ` set cel''"
    by blast
  have "map_of m ?k = Some (c\<lparr>data_event_id := Some n'\<rparr>)"
  proof (rule scan_loop_first_occurrence [OF loop _ _ _ ev s c])
    show "map_of [] ?k = None" by simp
    show "length [] \<le> j" by simp
    from ji i show "j < length calls" by simp
    from before show "\<forall>j'. length [] \<le> j' \<and> j' < j \<longrightarrow>
      (\<forall>cel' n'. fetch_upcoming_milestones_from_event w loc (calls ! j') = Inr (cel', n')
         \<longrightarrow> ?k \<notin> generate_key ` set cel')"
      by simp
  qed
  with inv res
  have byKey: "filter (\<lambda>p. generate_key p = ?k) res = [c\<lparr>data_event_id := Some n'\<rparr>]"
    by (simp add: filter_key_unique)
  have byFields: "filter (\<lambda>p. data_runs p = data_runs r \<and> data_name p = data_name r
        \<and> data_agegroup p = data_agegroup r) res = [r\<lparr>data_event_id := Some n'\<rparr>]"
    if nc: "\<forall>q\<in>set cel'. generate_key q = ?k \<longrightarrow> data_name q = data_name r"
  proof -
    let ?F = "\<lambda>p. data_runs p = data_runs r \<and> data_name p = data_name r
        \<and> data_agegroup p = data_agegroup r"
    from fetch_celebrants_qualify [OF event] r have "py_int (data_runs r) \<noteq> None"
      by (auto dest: check_milestone_parses)
    moreover from fetch_celebrants_qualify [OF ev] c_in have "py_int (data_runs c) \<noteq> None"
      by (auto dest: check_milestone_parses)
    ultimately have "data_runs c = data_runs r
        \<and> data_name c @ ''-'' @ data_agegroup c = data_name r @ ''-'' @ data_agegroup r"
      using c_key by (simp add: generate_key_eq_iff)
    moreover from nc c_in c_key have "data_name c = data_name r" by blast
    ultimately have same: "c\<lparr>data_event_id := Some n'\<rparr> = r\<lparr>data_event_id := Some n'\<rparr>"
      by (intro stamp_eq_if_fields) simp_all
    have "(generate_key p = ?k \<and> ?F p) = ?F p" for p
      by (auto simp: generate_key_def)
    then have "filter ?F res = filter ?F (filter (\<lambda>p. generate_key p = ?k) res)" by simp
    also have "\<dots> = [r\<lparr>data_event_id := Some n'\<rparr>]"
      unfolding byKey same by simp
    finally show ?thesis .
  qed
  have discard: "\<forall>ac c cs e. map_of ac (generate_key c) \<noteq> None \<longrightarrow>
          store_celebrants e (c # cs) ac = store_celebrants e cs ac"
    by (simp add: store_celebrants_old)
  from ji ev s c before byKey byFields have "\<exists>j\<le>i. \<exists>cel' n' s c.
            fetch_upcoming_milestones_from_event w loc (calls ! j) = Inr (cel', n')
            \<and> sorted_by_runs cel' = Inr s
            \<and> find (\<lambda>q. generate_key q = ?k) s = Some c
            \<and> (\<forall>j'<j. \<forall>cel'' n''.
                  fetch_upcoming_milestones_from_event w loc (calls ! j') = Inr (cel'', n'')
                  \<longrightarrow> ?k \<notin> generate_key ` set cel'')
            \<and> filter (\<lambda>p. generate_key p = ?k) res = [c\<lparr>data_event_id := Some n'\<rparr>]
            \<and> ((\<forall>q\<in>set cel'. generate_key q = ?k \<longrightarrow> data_name q = data_name r)
                 \<longrightarrow> filter (\<lambda>p. data_runs p = data_runs r \<and> data_name p = data_name r
                                   \<and> data_agegroup p = data_agegroup r) res
                       = [r\<lparr>data_event_id := Some n'\<rparr>])"
    by (intro exI [of _ j] exI [of _ cel'] exI [of _ n'] exI [of _ s] exI [of _ c]) blast
  from this discard show ?thesis by (rule conjI)
qed

theorem first_occurrence_wins_witness:
  "detect_milestones stale_web CYTADELA 3
     = (Inr [(runner ''49'' ''B'' ''SW30'')\<lparr>data_event_id := Some 10\<rparr>,
             (runner ''24'' ''A'' '''')\<lparr>data_event_id := Some 9\<rparr>,
             (runner ''99'' ''C'' ''VM40-44'')\<lparr>data_event_id := Some 9\<rparr>], [None, Some 9, Some 8])
   \<and> fetch_upcoming_milestones_from_event stale_web CYTADELA ([None, Some 9, Some 8] ! 1)
     = Inr ([runner ''99'' ''C'' ''VM40-44'', runner ''24'' ''A'' ''''], 9)
   \<and> fetch_upcoming_milestones_from_event stale_web CYTADELA ([None, Some 9, Some 8] ! 2)
     = Inr ([runner ''24'' ''A'' ''''], 8)
   \<and> length (filter (\<lambda>p. generate_key p = generate_key (runner ''24'' ''A'' ''''))
        [(runner ''49'' ''B'' ''SW30'')\<lparr>data_event_id := Some 10\<rparr>,
         (runner ''24'' ''A'' '''')\<lparr>data_event_id := Some 9\<rparr>,
         (runner ''99'' ''C'' ''VM40-44'')\<lparr>data_event_id := Some 9\<rparr>]) = 1
   \<and> filter (\<lambda>p. generate_key p = generate_key (runner ''24'' ''A'' ''''))
        [(runner ''49'' ''B'' ''SW30'')\<lparr>data_event_id := Some 10\<rparr>,
         (runner ''24'' ''A'' '''')\<lparr>data_event_id := Some 9\<rparr>,
         (runner ''99'' ''C'' ''VM40-44'')\<lparr>data_event_id := Some 9\<rparr>]
     = [(runner ''24'' ''A'' '''')\<lparr>data_event_id := Some 9\<rparr>]"
proof -
  let ?res = "[(runner ''49'' ''B'' ''SW30'')\<lparr>data_event_id := Some 10\<rparr>,
             (runner ''24'' ''A'' '''')\<lparr>data_event_id := Some 9\<rparr>,
             (runner ''99'' ''C'' ''VM40-44'')\<lparr>data_event_id := Some 9\<rparr>]"
  have f10: "fetch_upcoming_milestones_from_event stale_web CYTADELA None
     = Inr ([runner ''49'' ''B'' ''SW30''], 10)"
    by (simp add: fetch_defs stale_web_def)
  have f9: "fetch_upcoming_milestones_from_event stale_web CYTADELA (Some 9)
     = Inr ([runner ''99'' ''C'' ''VM40-44'', runner ''24'' ''A'' ''''], 9)"
    by (simp add: fetch_defs stale_web_def)
  have f8: "fetch_upcoming_milestones_from_event stale_web CYTADELA (Some 8)
     = Inr ([runner ''24'' ''A'' ''''], 8)"
    by (simp add: fetch_defs stale_web_def)
  have s10: "sorted_by_runs [runner ''49'' ''B'' ''SW30''] = Inr [runner ''49'' ''B'' ''SW30'']"
    and s9: "sorted_by_runs [runner ''99'' ''C'' ''VM40-44'', runner ''24'' ''A'' '''']
      = Inr [runner ''24'' ''A'' '''', runner ''99'' ''C'' ''VM40-44'']"
    and s8: "sorted_by_runs [runner ''24'' ''A'' ''''] = Inr [runner ''24'' ''A'' '''']"
    by (simp_all add: sort_defs)
  have n: "nat 3 = Suc (Suc (Suc 0))" by simp
  have d: "detect_milestones stale_web CYTADELA 3 = (Inr ?res, [None, Some 9, Some 8])"
    unfolding detect_milestones_def n
    by (simp add: scan_loop_Suc_continue [OF f10 s10] scan_loop_Suc_continue [OF f9 s9]
        scan_loop_Suc_continue [OF f8 s8] store_defs)
  have i: "2 < length [None, Some (9::int), Some 8]" by simp
  have e: "fetch_upcoming_milestones_from_event stale_web CYTADELA ([None, Some 9, Some 8] ! 2)
     = Inr ([runner ''24'' ''A'' ''''], 8)"
    by (simp add: f8)
  have e1: "fetch_upcoming_milestones_from_event stale_web CYTADELA ([None, Some 9, Some 8] ! 1)
     = Inr ([runner ''99'' ''C'' ''VM40-44'', runner ''24'' ''A'' ''''], 9)"
    by (simp add: f9)
  have r: "runner ''24'' ''A'' '''' \<in> set [runner ''24'' ''A'' '''']" by simp
  from first_occurrence_wins [OF d i e r] obtain c n' where
    one: "filter (\<lambda>p. generate_key p = generate_key (runner ''24'' ''A'' '''')) ?res
      = [c\<lparr>data_event_id := Some n'\<rparr>]"
    by blast
  then have len: "length (filter (\<lambda>p. generate_key p = generate_key (runner ''24'' ''A'' '''')) ?res) = 1"
    by simp
  have "filter (\<lambda>p. generate_key p = generate_key (runner ''24'' ''A'' '''')) ?res
     = [(runner ''24'' ''A'' '''')\<lparr>data_event_id := Some 9\<rparr>]"
    by (simp add: generate_key_def runner_def)
  with d e1 e len show ?thesis by (intro conjI)
qed

section \<open>Fetch failures\<close>

text \<open>
  C5. If a fetch call made by a scan fails, the scan returns that failure and no result
  list, and the failing call is the last call of the scan: nothing is retried and no later
  event is fetched.
\<close>

theorem fetch_failure_aborts_scan:
  assumes "detect_milestones w loc events_limit = (r, calls)"
    and "i < length calls"
    and "fetch_upcoming_milestones_from_event w loc (calls ! i) = Inl e"
  shows "r = Inl e \<and> Suc i = length calls"
proof -
  obtain r0 where l: "scan_loop w loc (nat events_limit) None [] [] = (r0, calls)"
    using assms(1) by (auto simp: detect_milestones_def split: prod.splits sum.splits)
  from scan_loop_failure [OF l] assms(2,3) have "r0 = Inl e \<and> Suc i = length calls"
    by auto
  with assms(1) l show ?thesis by (simp add: detect_milestones_def)
qed

theorem fetch_failure_aborts_scan_witness:
  "detect_milestones broken_web CYTADELA 5 = (Inl (AssertionError 404), [None, Some 2])
   \<and> (1::nat) < length [None, Some (2::int)]
   \<and> fetch_upcoming_milestones_from_event broken_web CYTADELA ([None, Some 2] ! 1)
       = Inl (AssertionError 404)
   \<and> Suc 1 = length [None, Some (2::int)]"
proof -
  have f3: "fetch_upcoming_milestones_from_event broken_web CYTADELA None
      = Inr ([runner ''24'' ''A'' ''''], 3)"
    by (simp add: fetch_defs broken_web_def)
  have s3: "sorted_by_runs [runner ''24'' ''A'' ''''] = Inr [runner ''24'' ''A'' '''']"
    by (simp add: sort_defs)
  have f2: "fetch_upcoming_milestones_from_event broken_web CYTADELA (Some 2)
      = Inl (AssertionError 404)"
    by (simp add: fetch_defs broken_web_def)
  have n: "nat 5 = Suc (Suc (Suc (Suc (Suc 0))))" by simp
  have d: "detect_milestones broken_web CYTADELA 5 = (Inl (AssertionError 404), [None, Some 2])"
    unfolding detect_milestones_def n
    by (simp add: scan_loop_Suc_continue [OF f3 s3] scan_loop_Suc_fail [OF f2])
  have i: "(1::nat) < length [None, Some (2::int)]" by simp
  have e: "fetch_upcoming_milestones_from_event broken_web CYTADELA ([None, Some 2] ! 1)
       = Inl (AssertionError 404)"
    by (simp add: f2)
  from fetch_failure_aborts_scan [OF d i e] d i e show ?thesis by simp
qed

section \<open>Determinism\<close>

text \<open>
  C6. The outcome of a scan (the result list in its order, with the stamped event ids, or the
  failure, and the list of fetch calls) is a function of the location, the limit and the
  fetcher's answers to the requests the scan makes: a second scan with the same location and
  limit, against a fetcher that answers these requests in the same way, has the same outcome.
  In particular two scans against the same fetcher agree.
\<close>

theorem scan_deterministic:
  assumes "detect_milestones w1 loc events_limit = (r, calls)"
    and "\<forall>a\<in>set calls. w2 (request_url loc a) = w1 (request_url loc a)"
  shows "detect_milestones w2 loc events_limit = (r, calls)"
proof -
  obtain r0 where l: "scan_loop w1 loc (nat events_limit) None [] [] = (r0, calls)"
    using assms(1) by (auto simp: detect_milestones_def split: prod.splits sum.splits)
  from scan_loop_agree [OF l assms(2)] l assms(1) show ?thesis
    by (simp add: detect_milestones_def)
qed

theorem scan_deterministic_witness:
  "detect_milestones example_web CYTADELA 2
     = (Inr [(runner ''24'' ''A'' '''')\<lparr>data_event_id := Some 10\<rparr>,
             (runner ''49'' ''B'' ''SW30'')\<lparr>data_event_id := Some 10\<rparr>], [None, Some 9])
   \<and> extended_web (request_url CYTADELA None) = example_web (request_url CYTADELA None)
   \<and> extended_web (request_url CYTADELA (Some 9)) = example_web (request_url CYTADELA (Some 9))
   \<and> extended_web \<noteq> example_web
   \<and> detect_milestones extended_web CYTADELA 2 = detect_milestones example_web CYTADELA 2"
proof -
  have f10: "fetch_upcoming_milestones_from_event example_web CYTADELA None
     = Inr ([runner ''24'' ''A'' '''', runner ''49'' ''B'' ''SW30''], 10)"
    by (simp add: fetch_defs example_web_def)
  have s10: "sorted_by_runs [runner ''24'' ''A'' '''', runner ''49'' ''B'' ''SW30'']
     = Inr [runner ''24'' ''A'' '''', runner ''49'' ''B'' ''SW30'']"
    by (simp add: sort_defs)
  have f9: "fetch_upcoming_milestones_from_event example_web CYTADELA (Some 9) = Inr ([], 9)"
    by (simp add: fetch_defs example_web_def)
  have s9: "sorted_by_runs [] = Inr []" by (simp add: sorted_by_runs_def)
  have n: "nat 2 = Suc (Suc 0)" by simp
  have d: "detect_milestones example_web CYTADELA 2
     = (Inr [(runner ''24'' ''A'' '''')\<lparr>data_event_id := Some 10\<rparr>,
             (runner ''49'' ''B'' ''SW30'')\<lparr>data_event_id := Some 10\<rparr>], [None, Some 9])"
    unfolding detect_milestones_def n
    by (simp add: scan_loop_Suc_continue [OF f10 s10] scan_loop_Suc_continue [OF f9 s9] store_defs)
  have a: "\<forall>a\<in>set [None, Some 9].
      extended_web (request_url CYTADELA a) = example_web (request_url CYTADELA a)"
    by (simp add: fetch_defs example_web_def extended_web_def)
  have "extended_web (EVENT_RESULTS_URL CYTADELA 8) \<noteq> example_web (EVENT_RESULTS_URL CYTADELA 8)"
    by (simp add: fetch_defs example_web_def extended_web_def)
  then have ne: "extended_web \<noteq> example_web" by auto
  from scan_deterministic [OF d a] d a ne show ?thesis by simp
qed

section \<open>The accumulation dict\<close>

text \<open>
  C7. The accumulation dict only grows. The inner loop leaves the dict it starts from as a
  prefix of the dict it returns, so every entry it found is still there, in its place, with
  its record and its stamped event id. The same holds from any state of the outer loop to the
  dict the loop ends with; a key bound before is bound to the same record afterwards. What
  \<open>detect_milestones\<close> returns is the list of the values of the final dict.
\<close>

theorem accumulation_monotone:
  "prefix ac (store_celebrants e cs ac)
   \<and> (scan_loop w loc k eid ac calls = (Inr m, calls') \<longrightarrow>
        prefix ac m \<and> (\<forall>key v. map_of ac key = Some v \<longrightarrow> map_of m key = Some v))
   \<and> (detect_milestones w loc events_limit = (Inr res, log) \<longrightarrow>
        (\<exists>final. scan_loop w loc (nat events_limit) None [] [] = (Inr final, log)
                 \<and> res = map snd final))"
proof (intro conjI impI allI)
  show "prefix ac (store_celebrants e cs ac)" by (rule store_celebrants_prefix)
next
  assume "scan_loop w loc k eid ac calls = (Inr m, calls')"
  then show "prefix ac m" by (rule scan_loop_prefix)
next
  fix key v
  assume "scan_loop w loc k eid ac calls = (Inr m, calls')" and "map_of ac key = Some v"
  then show "map_of m key = Some v" by (auto dest: scan_loop_prefix intro: map_of_prefix)
next
  assume "detect_milestones w loc events_limit = (Inr res, log)"
  then show "\<exists>final. scan_loop w loc (nat events_limit) None [] [] = (Inr final, log)
      \<and> res = map snd final"
    by (rule detect_milestones_loop)
qed

theorem accumulation_monotone_witness:
  "scan_loop stale_web CYTADELA (Suc (Suc 0)) (Some 9)
      [(''49-B-SW30'', (runner ''49'' ''B'' ''SW30'')\<lparr>data_event_id := Some 10\<rparr>)] [None]
     = (Inr [(''49-B-SW30'', (runner ''49'' ''B'' ''SW30'')\<lparr>data_event_id := Some 10\<rparr>),
             (''24-A-'', (runner ''24'' ''A'' '''')\<lparr>data_event_id := Some 9\<rparr>),
             (''99-C-VM40-44'', (runner ''99'' ''C'' ''VM40-44'')\<lparr>data_event_id := Some 9\<rparr>)],
        [None, Some 9, Some 8])
   \<and> map_of [(''49-B-SW30'', (runner ''49'' ''B'' ''SW30'')\<lparr>data_event_id := Some 10\<rparr>),
             (''24-A-'', (runner ''24'' ''A'' '''')\<lparr>data_event_id := Some 9\<rparr>),
             (''99-C-VM40-44'', (runner ''99'' ''C'' ''VM40-44'')\<lparr>data_event_id := Some 9\<rparr>)]
        ''49-B-SW30''
     = Some ((runner ''49'' ''B'' ''SW30'')\<lparr>data_event_id := Some 10\<rparr>)
   \<and> detect_milestones stale_web CYTADELA 3
     = (Inr [(runner ''49'' ''B'' ''SW30'')\<lparr>data_event_id := Some 10\<rparr>,
             (runner ''24'' ''A'' '''')\<lparr>data_event_id := Some 9\<rparr>,
             (runner ''99'' ''C'' ''VM40-44'')\<lparr>data_event_id := Some 9\<rparr>], [None, Some 9, Some 8])
   \<and> (\<exists>final. scan_loop stale_web CYTADELA (nat 3) None [] [] = (Inr final, [None, Some 9, Some 8])
         \<and> [(runner ''49'' ''B'' ''SW30'')\<lparr>data_event_id := Some 10\<rparr>,
            (runner ''24'' ''A'' '''')\<lparr>data_event_id := Some 9\<rparr>,
            (runner ''99'' ''C'' ''VM40-44'')\<lparr>data_event_id := Some 9\<rparr>] = map snd final)"
proof -
  let ?ac = "[(''49-B-SW30'', (runner ''49'' ''B'' ''SW30'')\<lparr>data_event_id := Some 10\<rparr>)]"
  let ?m = "?ac @ [(''24-A-'', (runner ''24'' ''A'' '''')\<lparr>data_event_id := Some 9\<rparr>),
       (''99-C-VM40-44'', (runner ''99'' ''C'' ''VM40-44'')\<lparr>data_event_id := Some 9\<rparr>)]"
  let ?res = "[(runner ''49'' ''B'' ''SW30'')\<lparr>data_event_id := Some 10\<rparr>,
             (runner ''24'' ''A'' '''')\<lparr>data_event_id := Some 9\<rparr>,
             (runner ''99'' ''C'' ''VM40-44'')\<lparr>data_event_id := Some 9\<rparr>]"
  have f10: "fetch_upcoming_milestones_from_event stale_web CYTADELA None
     = Inr ([runner ''49'' ''B'' ''SW30''], 10)"
    by (simp add: fetch_defs stale_web_def)
  have f9: "fetch_upcoming_milestones_from_event stale_web CYTADELA (Some 9)
     = Inr ([runner ''99'' ''C'' ''VM40-44'', runner ''24'' ''A'' ''''], 9)"
    by (simp add: fetch_defs stale_web_def)
  have f8: "fetch_upcoming_milestones_from_event stale_web CYTADELA (Some 8)
     = Inr ([runner ''24'' ''A'' ''''], 8)"
    by (simp add: fetch_defs stale_web_def)
  have s10: "sorted_by_runs [runner ''49'' ''B'' ''SW30''] = Inr [runner ''49'' ''B'' ''SW30'']"
    and s9: "sorted_by_runs [runner ''99'' ''C'' ''VM40-44'', runner ''24'' ''A'' '''']
      = Inr [runner ''24'' ''A'' '''', runner ''99'' ''C'' ''VM40-44'']"
    and s8: "sorted_by_runs [runner ''24'' ''A'' ''''] = Inr [runner ''24'' ''A'' '''']"
    by (simp_all add: sort_defs)
  have s: "scan_loop stale_web CYTADELA (Suc (Suc 0)) (Some 9) ?ac [None]
      = (Inr ?m, [None, Some 9, Some 8])"
    by (simp add: scan_loop_Suc_continue [OF f9 s9] scan_loop_Suc_continue [OF f8 s8] store_defs)
  have a: "map_of ?ac ''49-B-SW30'' = Some ((runner ''49'' ''B'' ''SW30'')\<lparr>data_event_id := Some 10\<rparr>)"
    by simp
  have n: "nat 3 = Suc (Suc (Suc 0))" by simp
  have d: "detect_milestones stale_web CYTADELA 3 = (Inr ?res, [None, Some 9, Some 8])"
    unfolding detect_milestones_def n
    by (simp add: scan_loop_Suc_continue [OF f10 s10] scan_loop_Suc_continue [OF f9 s9]
        scan_loop_Suc_continue [OF f8 s8] store_defs)
  from accumulation_monotone [of ?ac 9 "[]" stale_web CYTADELA "Suc (Suc 0)" "Some 9" "[None]" ?m
      "[None, Some 9, Some 8]" 3 ?res "[None, Some 9, Some 8]"] s a d
  have "map_of ?m ''49-B-SW30'' = Some ((runner ''49'' ''B'' ''SW30'')\<lparr>data_event_id := Some 10\<rparr>)"
    and "\<exists>final. scan_loop stale_web CYTADELA (nat 3) None [] [] = (Inr final, [None, Some 9, Some 8])
         \<and> ?res = map snd final"
    by blast+
  with s d show ?thesis by simp
qed

section \<open>Scans of the specification's examples\<close>

text \<open>
  C8. When the latest event resolves to id 3 and the pages of the events 2 and 1 can be
  fetched, a scan with a limit of at least 3, so with a limit of 100, makes exactly three
  fetch calls, for the latest event, event 2 and event 1, and returns a result list.
\<close>

theorem three_events_three_fetches:
  assumes "fetch_upcoming_milestones_from_event w loc None = Inr (c3, 3)"
    and "fetch_upcoming_milestones_from_event w loc (Some 2) = Inr (c2, e2)"
    and "fetch_upcoming_milestones_from_event w loc (Some 1) = Inr (c1, e1)"
    and "3 \<le> events_limit"
  shows "\<exists>res. detect_milestones w loc events_limit = (Inr res, [None, Some 2, Some 1])
    \<and> length (snd (detect_milestones w loc events_limit)) = 3"
proof -
  from assms(4) have "3 \<le> nat events_limit" by simp
  then obtain j where "nat events_limit = 3 + j" using le_Suc_ex by blast
  then have k: "nat events_limit = Suc (Suc (Suc j))" by simp
  from fetch_explicit_id [OF assms(2)] have e2: "e2 = 2" by simp
  from fetch_explicit_id [OF assms(3)] have e1: "e1 = 1" by simp
  from assms(2) e2
  have f2: "fetch_upcoming_milestones_from_event w loc (Some 2) = Inr (c2, 2)" by simp
  from assms(3) e1
  have f1: "fetch_upcoming_milestones_from_event w loc (Some 1) = Inr (c1, 1)" by simp
  from fetch_sortable [OF assms(1)] obtain s3 where s3: "sorted_by_runs c3 = Inr s3" by blast
  from fetch_sortable [OF f2] obtain s2 where s2: "sorted_by_runs c2 = Inr s2" by blast
  from fetch_sortable [OF f1] obtain s1 where s1: "sorted_by_runs c1 = Inr s1" by blast
  show ?thesis unfolding detect_milestones_def k
    by (simp add: scan_loop_Suc_continue [OF assms(1) s3] scan_loop_Suc_continue [OF f2 s2]
        scan_loop_Suc_stop [OF f1 s1])
qed

theorem three_events_three_fetches_witness:
  "fetch_upcoming_milestones_from_event three_events_web CYTADELA None = Inr ([], 3)
   \<and> fetch_upcoming_milestones_from_event three_events_web CYTADELA (Some 2) = Inr ([], 2)
   \<and> fetch_upcoming_milestones_from_event three_events_web CYTADELA (Some 1) = Inr ([], 1)
   \<and> (3::int) \<le> 100
   \<and> (\<exists>res. detect_milestones three_events_web CYTADELA 100 = (Inr res, [None, Some 2, Some 1]))
   \<and> length (snd (detect_milestones three_events_web CYTADELA 100)) = 3"
proof -
  have f3: "fetch_upcoming_milestones_from_event three_events_web CYTADELA None = Inr ([], 3)"
    by (simp add: fetch_defs three_events_web_def)
  have f2: "fetch_upcoming_milestones_from_event three_events_web CYTADELA (Some 2) = Inr ([], 2)"
    by (simp add: fetch_defs three_events_web_def)
  have f1: "fetch_upcoming_milestones_from_event three_events_web CYTADELA (Some 1) = Inr ([], 1)"
    by (simp add: fetch_defs three_events_web_def)
  have l: "(3::int) \<le> 100" by simp
  from three_events_three_fetches [OF f3 f2 f1 l] f3 f2 f1 show ?thesis by auto
qed

text \<open>
  C9. With a fetcher that serves, as the latest page, event 10 with the rows (24, A, no age
  group) and (49, B, SW30), and for event 9 the row (23, A, no age group), a scan with limit 2
  returns exactly two entries: A with run count 24 and B with run count 49, both stamped with
  event id 10. It fetches the latest event and event 9.
\<close>

theorem end_to_end_example:
  assumes "w (LATEST_RESULTS_URL loc) = Some \<lparr>status_code = 200,
      results_table = Some [\<lparr>data_runs = ''24'', data_name = ''A'', data_agegroup = '''', data_event_id = None\<rparr>,
                            \<lparr>data_runs = ''49'', data_name = ''B'', data_agegroup = ''SW30'', data_event_id = None\<rparr>],
      results_header = Some 10\<rparr>"
    and "w (EVENT_RESULTS_URL loc 9) = Some \<lparr>status_code = 200,
      results_table = Some [\<lparr>data_runs = ''23'', data_name = ''A'', data_agegroup = '''', data_event_id = None\<rparr>],
      results_header = h\<rparr>"
  shows "detect_milestones w loc 2 =
    (Inr [\<lparr>data_runs = ''24'', data_name = ''A'', data_agegroup = '''', data_event_id = Some 10\<rparr>,
          \<lparr>data_runs = ''49'', data_name = ''B'', data_agegroup = ''SW30'', data_event_id = Some 10\<rparr>],
     [None, Some 9])"
proof -
  have f10: "fetch_upcoming_milestones_from_event w loc None = Inr
      ([\<lparr>data_runs = ''24'', data_name = ''A'', data_agegroup = '''', data_event_id = None\<rparr>,
        \<lparr>data_runs = ''49'', data_name = ''B'', data_agegroup = ''SW30'', data_event_id = None\<rparr>], 10)"
    using assms(1)
    by (simp add: fetch_upcoming_milestones_from_event_def request_url_def check_milestone_def
        SUPPORTED_MILESTONES_def SUPPORTED_JUNIOR_MILESTONES_def int_defs)
  have s10: "sorted_by_runs
      [\<lparr>data_runs = ''24'', data_name = ''A'', data_agegroup = '''', data_event_id = None\<rparr>,
       \<lparr>data_runs = ''49'', data_name = ''B'', data_agegroup = ''SW30'', data_event_id = None\<rparr>]
    = Inr [\<lparr>data_runs = ''24'', data_name = ''A'', data_agegroup = '''', data_event_id = None\<rparr>,
           \<lparr>data_runs = ''49'', data_name = ''B'', data_agegroup = ''SW30'', data_event_id = None\<rparr>]"
    by (simp add: sorted_by_runs_def int_defs)
  have f9: "fetch_upcoming_milestones_from_event w loc (Some 9) = Inr ([], 9)"
    using assms(2)
    by (simp add: fetch_upcoming_milestones_from_event_def request_url_def check_milestone_def
        SUPPORTED_MILESTONES_def SUPPORTED_JUNIOR_MILESTONES_def int_defs)
  have s9: "sorted_by_runs [] = Inr []" by (simp add: sorted_by_runs_def)
  have n: "nat 2 = Suc (Suc 0)" by simp
  show ?thesis unfolding detect_milestones_def n
    by (simp add: scan_loop_Suc_continue [OF f10 s10] scan_loop_Suc_continue [OF f9 s9]
        store_celebrants.simps generate_key_def)
qed

theorem end_to_end_example_witness:
  "example_web (LATEST_RESULTS_URL CYTADELA) = Some \<lparr>status_code = 200,
      results_table = Some [\<lparr>data_runs = ''24'', data_name = ''A'', data_agegroup = '''', data_event_id = None\<rparr>,
                            \<lparr>data_runs = ''49'', data_name = ''B'', data_agegroup = ''SW30'', data_event_id = None\<rparr>],
      results_header = Some 10\<rparr>
   \<and> example_web (EVENT_RESULTS_URL CYTADELA 9) = Some \<lparr>status_code = 200,
      results_table = Some [\<lparr>data_runs = ''23'', data_name = ''A'', data_agegroup = '''', data_event_id = None\<rparr>],
      results_header = Some 9\<rparr>
   \<and> detect_milestones example_web CYTADELA 2 =
    (Inr [\<lparr>data_runs = ''24'', data_name = ''A'', data_agegroup = '''', data_event_id = Some 10\<rparr>,
          \<lparr>data_runs = ''49'', data_name = ''B'', data_agegroup = ''SW30'', data_event_id = Some 10\<rparr>],
     [None, Some 9])"
proof -
  have a: "example_web (LATEST_RESULTS_URL CYTADELA) = Some \<lparr>status_code = 200,
      results_table = Some [\<lparr>data_runs = ''24'', data_name = ''A'', data_agegroup = '''', data_event_id = None\<rparr>,
                            \<lparr>data_runs = ''49'', data_name = ''B'', data_agegroup = ''SW30'', data_event_id = None\<rparr>],
      results_header = Some 10\<rparr>"
    by (simp add: fetch_defs example_web_def)
  have b: "example_web (EVENT_RESULTS_URL CYTADELA 9) = Some \<lparr>status_code = 200,
      results_table = Some [\<lparr>data_runs = ''23'', data_name = ''A'', data_agegroup = '''', data_event_id = None\<rparr>],
      results_header = Some 9\<rparr>"
    by (simp add: fetch_defs example_web_def)
  from end_to_end_example [OF a b] a b show ?thesis by simp
qed

section \<open>The fetch operation\<close>

text \<open>
  C10. Fetching with \<open>event_id = 0\<close> is fetching with no \<open>event_id\<close>. The request goes to the
  latest-results URL, which is not the URL of event 0, and nothing else of the web is read: the
  outcome is the outcome of the checks on the page served there (status code, results table,
  run counts of its rows), and on success the qualifying rows of that page together with the
  event id read from that page's header, not the id 0.
\<close>

theorem fetch_zero_is_latest:
  "fetch_upcoming_milestones_from_event w loc (Some 0)
     = fetch_upcoming_milestones_from_event w loc None
   \<and> fetch_upcoming_milestones_from_event w loc (Some 0)
     = (case w (LATEST_RESULTS_URL loc) of
          None \<Rightarrow> Inl RequestException
        | Some response \<Rightarrow>
            if status_code response \<noteq> 200 then Inl (AssertionError (status_code response))
            else (case results_table response of
                    None \<Rightarrow> Inl AttributeError
                  | Some rows \<Rightarrow>
                      (case next_celebrants_of rows of
                         Inl e \<Rightarrow> Inl e
                       | Inr next_celebrants \<Rightarrow>
                           (case results_header response of
                              None \<Rightarrow> Inl HeaderError
                            | Some latest \<Rightarrow> Inr (next_celebrants, latest)))))
   \<and> (w (LATEST_RESULTS_URL loc)
         = Some \<lparr>status_code = 200, results_table = Some rows, results_header = Some latest\<rparr>
       \<longrightarrow> next_celebrants_of rows = Inr cel
       \<longrightarrow> fetch_upcoming_milestones_from_event w loc (Some 0) = Inr (cel, latest))
   \<and> (w' (LATEST_RESULTS_URL loc) = w (LATEST_RESULTS_URL loc)
       \<longrightarrow> fetch_upcoming_milestones_from_event w' loc (Some 0)
           = fetch_upcoming_milestones_from_event w loc (Some 0))
   \<and> request_url loc (Some 0) = LATEST_RESULTS_URL loc
   \<and> LATEST_RESULTS_URL loc \<noteq> EVENT_RESULTS_URL loc 0"
proof -
  have u: "request_url loc (Some 0) = LATEST_RESULTS_URL loc"
    and u': "request_url loc None = LATEST_RESULTS_URL loc"
    by (simp_all add: request_url_def)
  have same: "fetch_upcoming_milestones_from_event w loc (Some 0)
     = fetch_upcoming_milestones_from_event w loc None"
    by (simp add: fetch_upcoming_milestones_from_event_def u u' split: option.splits sum.splits)
  have page: "fetch_upcoming_milestones_from_event w loc (Some 0)
     = (case w (LATEST_RESULTS_URL loc) of
          None \<Rightarrow> Inl RequestException
        | Some response \<Rightarrow>
            if status_code response \<noteq> 200 then Inl (AssertionError (status_code response))
            else (case results_table response of
                    None \<Rightarrow> Inl AttributeError
                  | Some rows \<Rightarrow>
                      (case next_celebrants_of rows of
                         Inl e \<Rightarrow> Inl e
                       | Inr next_celebrants \<Rightarrow>
                           (case results_header response of
                              None \<Rightarrow> Inl HeaderError
                            | Some latest \<Rightarrow> Inr (next_celebrants, latest)))))" for w
    by (simp add: fetch_upcoming_milestones_from_event_def u split: option.splits sum.splits)
  have ok: "fetch_upcoming_milestones_from_event w loc (Some 0) = Inr (cel, latest)"
    if "w (LATEST_RESULTS_URL loc)
         = Some \<lparr>status_code = 200, results_table = Some rows, results_header = Some latest\<rparr>"
      and "next_celebrants_of rows = Inr cel"
    using that by (simp add: page)
  have local: "fetch_upcoming_milestones_from_event w' loc (Some 0)
           = fetch_upcoming_milestones_from_event w loc (Some 0)"
    if "w' (LATEST_RESULTS_URL loc) = w (LATEST_RESULTS_URL loc)"
    using that by (simp add: page)
  have ne: "LATEST_RESULTS_URL loc \<noteq> EVENT_RESULTS_URL loc 0"
    by (simp add: LATEST_RESULTS_URL_def EVENT_RESULTS_URL_def str_int_def str_nat.simps
        digit_char_def)
  from same page [of w] ok local u ne show ?thesis by (intro conjI impI)
qed

theorem fetch_zero_is_latest_witness:
  "zero_page_web (LATEST_RESULTS_URL CYTADELA)
     = Some \<lparr>status_code = 200, results_table = Some [runner ''24'' ''A'' ''''],
             results_header = Some 7\<rparr>
   \<and> zero_page_web (EVENT_RESULTS_URL CYTADELA 0)
     = Some \<lparr>status_code = 200, results_table = Some [runner ''49'' ''B'' ''SW30''],
             results_header = Some 0\<rparr>
   \<and> next_celebrants_of [runner ''24'' ''A'' ''''] = Inr [runner ''24'' ''A'' '''']
   \<and> fetch_upcoming_milestones_from_event zero_page_web CYTADELA (Some 0)
     = Inr ([runner ''24'' ''A'' ''''], 7)"
proof -
  have a: "zero_page_web (LATEST_RESULTS_URL CYTADELA)
     = Some \<lparr>status_code = 200, results_table = Some [runner ''24'' ''A'' ''''],
             results_header = Some 7\<rparr>"
    by (simp add: zero_page_web_def serve_def results_page_def LATEST_RESULTS_URL_def
        EVENT_RESULTS_URL_def PARKRUN_BASE_URL_def)
  have b: "zero_page_web (EVENT_RESULTS_URL CYTADELA 0)
     = Some \<lparr>status_code = 200, results_table = Some [runner ''49'' ''B'' ''SW30''],
             results_header = Some 0\<rparr>"
    by (simp add: zero_page_web_def serve_def results_page_def LATEST_RESULTS_URL_def
        EVENT_RESULTS_URL_def PARKRUN_BASE_URL_def str_int_def str_nat.simps digit_char_def)
  have c: "next_celebrants_of [runner ''24'' ''A'' ''''] = Inr [runner ''24'' ''A'' '''']"
    by (simp add: check_milestone_def SUPPORTED_MILESTONES_def runner_def int_defs)
  from fetch_zero_is_latest [of zero_page_web CYTADELA "[runner ''24'' ''A'' '''']" 7
      "[runner ''24'' ''A'' '''']" zero_page_web] a b c
  show ?thesis by blast
qed

end
